theory Spec2Isabelle
  imports Complex_Main
begin

section \<open>JavaScript values\<close>

text \<open>
  The library stores nested JSON-like objects of a Cloudflare Worker in a flat table.
  A JavaScript number is a double: \<open>NaN\<close>, the two infinities, or a finite value, which
  is a rational (\<open>-0\<close> is identified with \<open>0\<close>: the code only compares numbers with
  \<open>===\<close> and prints them, and neither tells the two apart).
\<close>

datatype jsnum = NaN | PosInfinity | NegInfinity | Fin rat

text \<open>
  The values the code can meet. An object is the list of its own enumerable properties
  in the order \<open>Object.keys\<close> enumerates them; its prototype is \<open>Object.prototype\<close>. A
  \<open>Date\<close> is a valid date, given by the text \<open>toISOString()\<close> returns; it has no own
  enumerable property. \<open>JFunction\<close> is a function object of the engine (the members of
  \<open>Object.prototype\<close>, which every object literal inherits) and \<open>JObjectPrototype\<close> is
  \<open>Object.prototype\<close> itself, the value of the inherited accessor \<open>__proto__\<close>. A value
  is a tree: two references to one object are two values.
\<close>

datatype jsval =
    JUndefined
  | JNull
  | JBool bool
  | JNum jsnum
  | JStr string
  | JArr "jsval list"
  | JObj "(string \<times> jsval) list"
  | JDate string
  | JFunction string
  | JObjectPrototype

type_synonym dict = "(string \<times> jsval) list"

text \<open>
  Where the lookup of a property name in a prototype chain ends: at no property, at a
  data property, with its value and whether it is writable, at an accessor of the engine
  that throws a \<open>TypeError\<close> when it is read or written, or at the accessor \<open>__proto__\<close>
  of \<open>Object.prototype\<close>.
\<close>

datatype slot = Missing | DataProperty jsval bool | ThrowingAccessor | ProtoAccessor

text \<open>
  Built-ins of the engine that the code calls and the repository does not define. They
  are parameters of the embedding: \<open>JSON.stringify\<close>, \<open>JSON.parse\<close> (\<open>None\<close> is a
  \<open>SyntaxError\<close>), \<open>String(n)\<close> and \<open>Number(s)\<close> on numbers, \<open>String(v)\<close> on
  objects and functions, and the identity of objects, which \<open>===\<close> compares and a value
  does not show. \<open>builtin_slot rt p k\<close> is where the lookup of the name \<open>k\<close> ends in the
  array (after its elements and its length), the \<open>Date\<close> or the function \<open>p\<close> and in
  \<open>Array.prototype\<close>, \<open>Date.prototype\<close> or \<open>Function.prototype\<close>; it is \<open>Missing\<close>
  when the lookup goes on to \<open>Object.prototype\<close>. \<open>TypeError_message rt p k\<close> is the
  message of the \<open>TypeError\<close> the engine throws for the property \<open>k\<close> of an object
  whose prototype is \<open>p\<close>.
\<close>

record runtime =
  JSON_stringify :: "jsval \<Rightarrow> string"
  JSON_parse :: "string \<Rightarrow> jsval option"
  Number_toString :: "jsnum \<Rightarrow> string"
  ToNumber :: "string \<Rightarrow> jsnum"
  Object_toString :: "jsval \<Rightarrow> string"
  same_reference :: "jsval \<Rightarrow> jsval \<Rightarrow> bool"
  builtin_slot :: "jsval \<Rightarrow> string \<Rightarrow> slot"
  TypeError_message :: "jsval \<Rightarrow> string \<Rightarrow> string"

fun typeof :: "jsval \<Rightarrow> string" where
  "typeof JUndefined = ''undefined''"
| "typeof JNull = ''object''"
| "typeof (JBool b) = ''boolean''"
| "typeof (JNum n) = ''number''"
| "typeof (JStr s) = ''string''"
| "typeof (JArr xs) = ''object''"
| "typeof (JObj es) = ''object''"
| "typeof (JDate t) = ''object''"
| "typeof (JFunction f) = ''function''"
| "typeof JObjectPrototype = ''object''"

text \<open>\<open>!v\<close> is true for the falsy values.\<close>

fun falsy :: "jsval \<Rightarrow> bool" where
  "falsy JUndefined = True"
| "falsy JNull = True"
| "falsy (JBool b) = (\<not> b)"
| "falsy (JNum n) = (n = NaN \<or> n = Fin 0)"
| "falsy (JStr s) = (s = [])"
| "falsy v = False"

text \<open>\<open>a === b\<close>: by value on primitives (\<open>NaN\<close> equals nothing), by identity on objects.\<close>

fun strict_eq :: "runtime \<Rightarrow> jsval \<Rightarrow> jsval \<Rightarrow> bool" where
  "strict_eq rt JUndefined b = (b = JUndefined)"
| "strict_eq rt JNull b = (b = JNull)"
| "strict_eq rt (JBool x) b = (b = JBool x)"
| "strict_eq rt (JNum x) b = (x \<noteq> NaN \<and> b = JNum x)"
| "strict_eq rt (JStr x) b = (b = JStr x)"
| "strict_eq rt a b = (typeof b \<in> {''object'', ''function''} \<and> b \<noteq> JNull \<and> same_reference rt a b)"

text \<open>\<open>String(v)\<close>, also the conversion inside a template literal.\<close>

fun js_String :: "runtime \<Rightarrow> jsval \<Rightarrow> string" where
  "js_String rt JUndefined = ''undefined''"
| "js_String rt JNull = ''null''"
| "js_String rt (JBool b) = (if b then ''true'' else ''false'')"
| "js_String rt (JNum n) = Number_toString rt n"
| "js_String rt (JStr s) = s"
| "js_String rt v = Object_toString rt v"

subsection \<open>Errors\<close>

text \<open>
  Every error the class throws, with the values its message is built from, and the
  \<open>TypeError\<close> of the engine, with its message. The code is a module, so it runs in
  strict mode, where a failed assignment throws.
\<close>

datatype error =
    InvalidObjectId jsval
  | InvalidPath jsval
  | NoObjectLoaded
  | NoObjectIdSpecified
  | LoadFailed string string
  | SaveFailed string string
  | DeleteFailed string string
  | ExistsFailed string string
  | TypeError string

fun error_message :: "runtime \<Rightarrow> error \<Rightarrow> string" where
  "error_message rt (InvalidObjectId v) = ''Invalid object ID: '' @ js_String rt v"
| "error_message rt (InvalidPath v) = ''Invalid path: '' @ js_String rt v"
| "error_message rt NoObjectLoaded = ''No object loaded. Call use() first.''"
| "error_message rt NoObjectIdSpecified = ''No object ID specified for deletion''"
| "error_message rt (LoadFailed i m) =
     ''Failed to load object '' @ [CHR 0x22] @ i @ [CHR 0x22] @ '' from D1: '' @ m"
| "error_message rt (SaveFailed i m) =
     ''Failed to save object '' @ [CHR 0x22] @ i @ [CHR 0x22] @ '' to D1: '' @ m"
| "error_message rt (DeleteFailed i m) =
     ''Failed to delete object '' @ [CHR 0x22] @ i @ [CHR 0x22] @ '' from D1: '' @ m"
| "error_message rt (ExistsFailed i m) =
     ''Failed to check existence of object '' @ [CHR 0x22] @ i @ [CHR 0x22] @ '': '' @ m"
| "error_message rt (TypeError m) = m"

subsection \<open>Own properties\<close>

text \<open>
  An array index is a canonical decimal numeral below \<open>2^32 - 1\<close>. The engine
  enumerates the own properties of an object with the array indices first, in ascending
  order, and then the other names in the order they were added.
\<close>

definition is_digit :: "char \<Rightarrow> bool" where
  "is_digit c = (c \<in> set ''0123456789'')"

definition digits_value :: "string \<Rightarrow> nat" where
  "digits_value s = foldl (\<lambda>n c. 10 * n + (of_char c - 48)) 0 s"

definition array_index :: "string \<Rightarrow> nat option" where
  "array_index s =
     (if s \<noteq> [] \<and> list_all is_digit s \<and> (length s = 1 \<or> hd s \<noteq> CHR ''0'')
         \<and> digits_value s < 4294967295
      then Some (digits_value s) else None)"

definition has_own :: "dict \<Rightarrow> string \<Rightarrow> bool" where
  "has_own d k = (k \<in> fst ` set d)"

text \<open>Adding a new own property: an array index goes to its place among the indices.\<close>

fun insert_index :: "nat \<Rightarrow> string \<Rightarrow> jsval \<Rightarrow> dict \<Rightarrow> dict" where
  "insert_index n k v [] = [(k, v)]"
| "insert_index n k v ((k', v') # d) =
     (case array_index k' of
        Some m \<Rightarrow> if m < n then (k', v') # insert_index n k v d else (k, v) # (k', v') # d
      | None \<Rightarrow> (k, v) # (k', v') # d)"

definition add_own :: "string \<Rightarrow> jsval \<Rightarrow> dict \<Rightarrow> dict" where
  "add_own k v d = (case array_index k of Some n \<Rightarrow> insert_index n k v d | None \<Rightarrow> d @ [(k, v)])"

fun replace_own :: "string \<Rightarrow> jsval \<Rightarrow> dict \<Rightarrow> dict" where
  "replace_own k v [] = []"
| "replace_own k v ((k', v') # d) = (if k' = k then (k, v) # d else (k', v') # replace_own k v d)"

text \<open>The own properties after the own property \<open>k\<close> is written, or created.\<close>

definition own_set :: "string \<Rightarrow> jsval \<Rightarrow> dict \<Rightarrow> dict" where
  "own_set k v d = (if has_own d k then replace_own k v d else add_own k v d)"

text \<open>\<open>delete d[k]\<close> removes an own property.\<close>

definition obj_delete :: "string \<Rightarrow> dict \<Rightarrow> dict" where
  "obj_delete k d = filter (\<lambda>e. fst e \<noteq> k) d"

subsection \<open>The prototype chain\<close>

text \<open>
  The names every object literal inherits from \<open>Object.prototype\<close>: writable data
  properties that hold functions, and the accessor \<open>__proto__\<close>.
\<close>

definition object_prototype_names :: "string list" where
  "object_prototype_names =
     [''constructor'', ''hasOwnProperty'', ''isPrototypeOf'', ''propertyIsEnumerable'',
      ''toLocaleString'', ''toString'', ''valueOf'', ''__proto__'',
      ''__defineGetter__'', ''__defineSetter__'', ''__lookupGetter__'', ''__lookupSetter__'']"

definition object_prototype_slot :: "string \<Rightarrow> slot" where
  "object_prototype_slot k =
     (if k = ''__proto__'' then ProtoAccessor
      else if k \<in> set object_prototype_names then DataProperty (JFunction k) True
      else Missing)"

text \<open>The elements of an array and its length are own data properties of it.\<close>

definition array_slot :: "jsval list \<Rightarrow> string \<Rightarrow> slot" where
  "array_slot xs k =
     (case array_index k of
        Some n \<Rightarrow> if n < length xs then DataProperty (xs ! n) True else Missing
      | None \<Rightarrow> if k = ''length'' then DataProperty (JNum (Fin (of_nat (length xs)))) True
                else Missing)"

definition builtin_chain :: "runtime \<Rightarrow> jsval \<Rightarrow> string \<Rightarrow> slot" where
  "builtin_chain rt p k =
     (if builtin_slot rt p k = Missing then object_prototype_slot k else builtin_slot rt p k)"

text \<open>
  \<open>find_slot rt p k\<close> looks the name \<open>k\<close> up in the object \<open>p\<close> and then along its
  prototype chain: a plain object has its own properties and then those of
  \<open>Object.prototype\<close>; an array, a \<open>Date\<close> and a function have those of the engine and
  then those of \<open>Object.prototype\<close>. The chain of \<open>null\<close> is empty.
\<close>

fun find_slot :: "runtime \<Rightarrow> jsval \<Rightarrow> string \<Rightarrow> slot" where
  "find_slot rt JObjectPrototype k = object_prototype_slot k"
| "find_slot rt (JObj es) k =
     (case map_of es k of Some v \<Rightarrow> DataProperty v True | None \<Rightarrow> object_prototype_slot k)"
| "find_slot rt (JArr xs) k =
     (if array_slot xs k = Missing then builtin_chain rt (JArr xs) k else array_slot xs k)"
| "find_slot rt (JDate t) k = builtin_chain rt (JDate t) k"
| "find_slot rt (JFunction f) k = builtin_chain rt (JFunction f) k"
| "find_slot rt v k = Missing"

fun slot_found :: "slot \<Rightarrow> bool" where
  "slot_found Missing = False"
| "slot_found s = True"

subsection \<open>Objects the code assigns to\<close>

text \<open>
  An object the code creates with \<open>{}\<close> and assigns to: its own properties and its
  prototype, which an assignment to \<open>__proto__\<close> replaces. \<open>plain d\<close> is the object
  with the own properties \<open>d\<close> and the prototype \<open>Object.prototype\<close>, so \<open>plain []\<close> is
  \<open>{}\<close>.
\<close>

record object =
  props :: dict
  proto :: jsval

definition plain :: "dict \<Rightarrow> object" where
  "plain d = \<lparr>props = d, proto = JObjectPrototype\<rparr>"

text \<open>
  \<open>o[k]\<close>: the own property, else what the lookup in the prototype chain finds. The
  getter of \<open>__proto__\<close> returns the prototype of \<open>o\<close>.
\<close>

definition obj_get :: "runtime \<Rightarrow> object \<Rightarrow> string \<Rightarrow> error + jsval" where
  "obj_get rt ob k =
     (case map_of (props ob) k of
        Some v \<Rightarrow> Inr v
      | None \<Rightarrow>
          (case find_slot rt (proto ob) k of
             Missing \<Rightarrow> Inr JUndefined
           | DataProperty v w \<Rightarrow> Inr v
           | ThrowingAccessor \<Rightarrow> Inl (TypeError (TypeError_message rt (proto ob) k))
           | ProtoAccessor \<Rightarrow> Inr (proto ob)))"

text \<open>\<open>k in o\<close> looks through the prototype chain and calls no getter.\<close>

definition obj_in :: "runtime \<Rightarrow> string \<Rightarrow> object \<Rightarrow> bool" where
  "obj_in rt k ob = (has_own (props ob) k \<or> slot_found (find_slot rt (proto ob) k))"

text \<open>
  \<open>o[k] = v\<close>. An own property is written. Without one, the lookup in the prototype
  chain decides: no property or a writable data property there gives \<open>o\<close> a new own
  property; a data property that is not writable and an accessor that throws give a
  \<open>TypeError\<close>; the setter of \<open>__proto__\<close> replaces the prototype of \<open>o\<close> when \<open>v\<close> is
  an object, a function or \<open>null\<close>, does nothing otherwise, and never creates an own
  property.
\<close>

definition obj_set :: "runtime \<Rightarrow> string \<Rightarrow> jsval \<Rightarrow> object \<Rightarrow> error + object" where
  "obj_set rt k v ob =
     (if has_own (props ob) k then Inr (ob\<lparr>props := own_set k v (props ob)\<rparr>)
      else
        (case find_slot rt (proto ob) k of
           Missing \<Rightarrow> Inr (ob\<lparr>props := own_set k v (props ob)\<rparr>)
         | DataProperty u writable \<Rightarrow>
             if writable then Inr (ob\<lparr>props := own_set k v (props ob)\<rparr>)
             else Inl (TypeError (TypeError_message rt (proto ob) k))
         | ThrowingAccessor \<Rightarrow> Inl (TypeError (TypeError_message rt (proto ob) k))
         | ProtoAccessor \<Rightarrow>
             if typeof v = ''object'' \<or> typeof v = ''function'' then Inr (ob\<lparr>proto := v\<rparr>)
             else Inr ob))"

section \<open>flatten.js\<close>

text \<open>\<open>Array.isArray(v)\<close>.\<close>

fun isArray :: "jsval \<Rightarrow> bool" where
  "isArray (JArr xs) = True"
| "isArray v = False"

text \<open>\<open>value instanceof Date\<close>, with the text \<open>value.toISOString()\<close> returns.\<close>

fun date_text :: "jsval \<Rightarrow> string option" where
  "date_text (JDate t) = Some t"
| "date_text v = None"

text \<open>\<open>Object.keys(obj)\<close> with the values, for a value whose \<open>typeof\<close> is \<open>object\<close>.\<close>

fun own_entries :: "jsval \<Rightarrow> dict" where
  "own_entries (JObj es) = es"
| "own_entries v = []"

text \<open>
  \<open>flatten(obj, prefix, result)\<close> assigns to \<open>result\<close> and returns it, or throws what an
  assignment throws. In the loop over the keys every branch ends the turn of its key;
  the loop goes on with the next key on the object the turn leaves.
\<close>

function flatten :: "runtime \<Rightarrow> jsval \<Rightarrow> string \<Rightarrow> object \<Rightarrow> error + object"
  and flatten_keys :: "runtime \<Rightarrow> dict \<Rightarrow> string \<Rightarrow> object \<Rightarrow> error + object" where
  "flatten rt obj prefix result =
     (if obj = JNull \<or> obj = JUndefined then
        (if prefix \<noteq> [] then obj_set rt prefix (JStr []) result else Inr result)
      else if typeof obj \<noteq> ''object'' then
        (if prefix \<noteq> [] then obj_set rt prefix obj result else Inr result)
      else if isArray obj then
        (if prefix \<noteq> [] then obj_set rt prefix (JStr (JSON_stringify rt obj)) result
         else Inr result)
      else if own_entries obj = [] then
        (if prefix \<noteq> [] then obj_set rt prefix (JStr ''{}'') result else Inr result)
      else flatten_keys rt (own_entries obj) prefix result)"
| "flatten_keys rt [] prefix result = Inr result"
| "flatten_keys rt ((key, value) # rest) prefix result =
     (let newPrefix = (if prefix \<noteq> [] then prefix @ ''.'' @ key else key) in
      case
        (if value = JNull \<or> value = JUndefined then obj_set rt newPrefix (JStr []) result
         else if isArray value then obj_set rt newPrefix (JStr (JSON_stringify rt value)) result
         else if typeof value = ''object'' then
           (case date_text value of
              Some t \<Rightarrow> obj_set rt newPrefix (JStr t) result
            | None \<Rightarrow>
                if own_entries value = [] then obj_set rt newPrefix (JStr ''{}'') result
                else flatten rt value newPrefix result)
         else obj_set rt newPrefix value result)
      of
        Inl e \<Rightarrow> Inl e
      | Inr result1 \<Rightarrow> flatten_keys rt rest prefix result1)"
  by pat_completeness auto

definition entries_size :: "dict \<Rightarrow> nat" where
  "entries_size es = sum_list (map (\<lambda>e. Suc (size (snd e))) es)"

lemma entries_size_le: "entries_size es \<le> size_list (size_prod (\<lambda>_. 0) size) es"
  by (induction es) (auto simp: entries_size_def)

lemma entries_size_own_entries:
  "own_entries v \<noteq> [] \<Longrightarrow> entries_size (own_entries v) < size v"
  using entries_size_le by (cases v) (simp_all add: less_Suc_eq_le)

lemma entries_size_Cons: "entries_size ((k, v) # es) = Suc (size v) + entries_size es"
  by (simp add: entries_size_def)

termination flatten
proof (relation "measure (\<lambda>x. case x of Inl (rt, obj, p, r) \<Rightarrow> size obj
                                       | Inr (rt, es, p, r) \<Rightarrow> entries_size es)")
  show "wf (measure (\<lambda>x. case x of Inl (rt, obj, p, r) \<Rightarrow> size obj
                                       | Inr (rt, es, p, r) \<Rightarrow> entries_size es))"
    by simp
qed (simp_all add: entries_size_own_entries entries_size_Cons)

declare flatten.simps [simp del]
declare flatten_keys.simps [simp del]

subsection \<open>unflatten\<close>

text \<open>\<open>path.split('.')\<close>: never empty, \<open>''.split('.')\<close> is \<open>['']\<close>.\<close>

fun split_dot :: "string \<Rightarrow> string list" where
  "split_dot [] = [[]]"
| "split_dot (c # cs) =
     (if c = CHR ''.'' then [] # split_dot cs
      else (case split_dot cs of w # ws \<Rightarrow> (c # w) # ws | [] \<Rightarrow> [[c]]))"

definition startsWith :: "string \<Rightarrow> string \<Rightarrow> bool" where
  "startsWith s p = (take (length p) s = p)"

definition endsWith :: "string \<Rightarrow> string \<Rightarrow> bool" where
  "endsWith s p = (length p \<le> length s \<and> drop (length s - length p) s = p)"

fun str_includes :: "string \<Rightarrow> string \<Rightarrow> bool" where
  "str_includes [] p = (p = [])"
| "str_includes (c # cs) p = (startsWith (c # cs) p \<or> str_includes cs p)"

fun parseValue :: "runtime \<Rightarrow> jsval \<Rightarrow> jsval" where
  "parseValue rt (JStr s) =
     (if s = [] then JNull
      else if s = ''{}'' then JObj []
      else if (startsWith s ''['' \<and> endsWith s '']'') \<or> (startsWith s ''{'' \<and> endsWith s ''}'') then
        (case JSON_parse rt s of Some v \<Rightarrow> v | None \<Rightarrow> JStr s)
      else JStr s)"
| "parseValue rt v = v"

fun is_plain_object :: "jsval \<Rightarrow> bool" where
  "is_plain_object (JObj es) = True"
| "is_plain_object v = False"

text \<open>
  The result of \<open>unflatten\<close> is a tree of objects the loop creates with \<open>{}\<close> or finds
  among the values. \<open>assign rt key v current\<close> is the assignment \<open>current[key] = v\<close> to
  an object of that tree, given by its own properties. When the assignment replaces the
  prototype of the object, the result is no longer a value of the embedding, which is
  \<open>None\<close>.
\<close>

definition assign :: "runtime \<Rightarrow> string \<Rightarrow> jsval \<Rightarrow> dict \<Rightarrow> dict option" where
  "assign rt key v current =
     (case obj_set rt key v (plain current) of
        Inl e \<Rightarrow> None
      | Inr r \<Rightarrow> if proto r = JObjectPrototype then Some (props r) else None)"

text \<open>
  The inner loop of \<open>unflatten\<close>, on the segments left and the object \<open>current\<close>; it
  returns \<open>current\<close> after the assignments. The walk creates \<open>{}\<close> where the segment holds
  no object and steps into the object it holds otherwise. When that object is an array,
  a \<open>Date\<close> or \<open>Object.prototype\<close>, the code goes on to write properties of it; the
  embedding does not track such properties, and the result is \<open>None\<close>.
\<close>

fun unflatten_path :: "runtime \<Rightarrow> string list \<Rightarrow> jsval \<Rightarrow> dict \<Rightarrow> dict option" where
  "unflatten_path rt [] v current = Some current"
| "unflatten_path rt [key] v current = assign rt key v current"
| "unflatten_path rt (key # rest) v current =
     (case obj_get rt (plain current) key of
        Inl e \<Rightarrow> None
      | Inr held \<Rightarrow>
          if falsy held \<or> typeof held \<noteq> ''object'' then
            (case unflatten_path rt rest v [] of
               None \<Rightarrow> None
             | Some sub \<Rightarrow> assign rt key (JObj sub) current)
          else if is_plain_object held then
            (case unflatten_path rt rest v (own_entries held) of
               None \<Rightarrow> None
             | Some sub \<Rightarrow> assign rt key (JObj sub) current)
          else None)"

fun unflatten_entries :: "runtime \<Rightarrow> dict \<Rightarrow> dict \<Rightarrow> dict option" where
  "unflatten_entries rt [] result = Some result"
| "unflatten_entries rt ((path, value) # rest) result =
     (case unflatten_path rt (split_dot path) (parseValue rt value) result of
        None \<Rightarrow> None
      | Some r \<Rightarrow> unflatten_entries rt rest r)"

text \<open>\<open>Object.entries(flatObj)\<close> are the own properties of \<open>flatObj\<close>.\<close>

definition unflatten :: "runtime \<Rightarrow> object \<Rightarrow> jsval option" where
  "unflatten rt flatObj = map_option JObj (unflatten_entries rt (props flatObj) [])"

section \<open>types.js\<close>

fun getValueType :: "jsval \<Rightarrow> string" where
  "getValueType JNull = ''null''"
| "getValueType JUndefined = ''undefined''"
| "getValueType (JArr xs) = ''array''"
| "getValueType v = typeof v"

definition serializeValue :: "runtime \<Rightarrow> jsval \<Rightarrow> string" where
  "serializeValue rt v =
     (if v = JNull \<or> v = JUndefined then []
      else if getValueType v = ''string'' then js_String rt v
      else if getValueType v = ''number'' \<or> getValueType v = ''boolean'' then js_String rt v
      else if getValueType v = ''array'' \<or> getValueType v = ''object'' then JSON_stringify rt v
      else js_String rt v)"

text \<open>
  A column of the table holds a text or \<open>NULL\<close>, which the driver returns as \<open>null\<close>.
  \<open>Number(null)\<close> is \<open>0\<close> and \<open>JSON.parse(null)\<close> parses the text \<open>null\<close>.
\<close>

definition column_value :: "string option \<Rightarrow> jsval" where
  "column_value c = (case c of None \<Rightarrow> JNull | Some s \<Rightarrow> JStr s)"

definition deserializeValue :: "runtime \<Rightarrow> string option \<Rightarrow> string option \<Rightarrow> jsval" where
  "deserializeValue rt serialized valueType =
     (if valueType = Some ''null'' \<or> serialized = Some [] then JNull
      else if valueType = Some ''undefined'' then JUndefined
      else if valueType = Some ''string'' then column_value serialized
      else if valueType = Some ''number'' then
        (let num = (case serialized of None \<Rightarrow> Fin 0 | Some s \<Rightarrow> ToNumber rt s)
         in if num = NaN then JNum (Fin 0) else JNum num)
      else if valueType = Some ''boolean'' then JBool (serialized = Some ''true'')
      else if valueType = Some ''array'' \<or> valueType = Some ''object'' then
        (case JSON_parse rt (case serialized of None \<Rightarrow> ''null'' | Some s \<Rightarrow> s) of
           Some v \<Rightarrow> v
         | None \<Rightarrow> if valueType = Some ''array'' then JArr [] else JObj [])
      else column_value serialized)"

definition toStorageFormat :: "runtime \<Rightarrow> jsval \<Rightarrow> string \<times> string" where
  "toStorageFormat rt v = (serializeValue rt v, getValueType v)"

definition fromStorageFormat :: "runtime \<Rightarrow> string option \<Rightarrow> string option \<Rightarrow> jsval" where
  "fromStorageFormat rt v t = deserializeValue rt v t"

text \<open>\<open>s.trim()\<close> strips white space and line terminators; a character is a code unit
  below 256 here.\<close>

definition is_whitespace :: "char \<Rightarrow> bool" where
  "is_whitespace c = ((of_char c :: nat) \<in> {9, 10, 11, 12, 13, 32, 160})"

definition trim :: "string \<Rightarrow> string" where
  "trim s = rev (dropWhile is_whitespace (rev (dropWhile is_whitespace s)))"

fun isValidPath :: "jsval \<Rightarrow> bool" where
  "isValidPath (JStr path) =
     (if path = [] then False
      else if trim path \<noteq> path then False
      else if startsWith path ''.'' \<or> endsWith path ''.'' then False
      else if str_includes path ''..'' then False
      else True)"
| "isValidPath v = False"

fun isValidObjId :: "jsval \<Rightarrow> bool" where
  "isValidObjId (JStr objId) =
     (if objId = [] then False
      else if trim objId \<noteq> objId then False
      else if length objId > 255 then False
      else True)"
| "isValidObjId v = False"

section \<open>The table in D1\<close>

text \<open>
  A row of the table of \<open>schema/init.sql\<close>, without the two time stamps, which the
  library writes and never reads. The primary key is \<open>(obj_id, key_path)\<close>.
\<close>

record row =
  obj_id :: string
  key_path :: string
  val :: "string option"
  value_type :: "string option"

text \<open>The bound statements \<open>save\<close> prepares, and the calls that reach the database.\<close>

datatype stmt =
    DeleteRow string string
  | UpsertRow string string string string

datatype d1call =
    SelectObject string
  | Batch "stmt list"
  | DeleteObject string
  | CountObject string

text \<open>
  The error object a call to the database is rejected with: the code reads its
  \<open>message\<close>; the name stands for everything else the object holds.
\<close>

record cause =
  cause_name :: string
  cause_message :: string

text \<open>
  The world outside the session: the rows of the table, the calls made so far, the
  calls the database rejects (\<open>rejects w n c\<close> is the error when call \<open>c\<close>, made after
  \<open>n\<close> earlier calls, fails) and the lines written by \<open>console.warn\<close>.
\<close>

record world =
  rows :: "row list"
  calls :: "d1call list"
  rejects :: "nat \<Rightarrow> d1call \<Rightarrow> cause option"
  console :: "string list"

definition d1_call :: "world \<Rightarrow> d1call \<Rightarrow> cause option \<times> world" where
  "d1_call w c = (rejects w (length (calls w)) c, w\<lparr>calls := calls w @ [c]\<rparr>)"

fun upsert_row :: "row \<Rightarrow> row list \<Rightarrow> row list" where
  "upsert_row r [] = [r]"
| "upsert_row r (r' # rs) =
     (if obj_id r' = obj_id r \<and> key_path r' = key_path r then r # rs else r' # upsert_row r rs)"

text \<open>The SQL of the two statements: a delete by key, and an insert that updates the
  value and the type of the row on a conflict of the key.\<close>

fun run_stmt :: "stmt \<Rightarrow> row list \<Rightarrow> row list" where
  "run_stmt (DeleteRow i p) rs = filter (\<lambda>r. \<not> (obj_id r = i \<and> key_path r = p)) rs"
| "run_stmt (UpsertRow i p v t) rs =
     upsert_row \<lparr>obj_id = i, key_path = p, val = Some v, value_type = Some t\<rparr> rs"

definition run_batch :: "stmt list \<Rightarrow> row list \<Rightarrow> row list" where
  "run_batch stmts rs = fold run_stmt stmts rs"

section \<open>index.js: the session\<close>

text \<open>A \<open>Set\<close> of paths iterates in insertion order.\<close>

definition Set_add :: "string \<Rightarrow> string list \<Rightarrow> string list" where
  "Set_add x xs = (if x \<in> set xs then xs else xs @ [x])"

definition Set_delete :: "string \<Rightarrow> string list \<Rightarrow> string list" where
  "Set_delete x xs = removeAll x xs"

record session =
  currentObjId :: "string option"
  flatData :: object
  originalFlatData :: object
  dirtyPaths :: "string list"
  deletedPaths :: "string list"

definition new_session :: session where
  "new_session = \<lparr>currentObjId = None, flatData = plain [], originalFlatData = plain [],
                   dirtyPaths = [], deletedPaths = []\<rparr>"

text \<open>\<open>!this.currentObjId\<close>: the id is \<open>null\<close> or the empty string.\<close>

definition no_object :: "session \<Rightarrow> bool" where
  "no_object s = (currentObjId s = None \<or> currentObjId s = Some [])"

fun the_string :: "jsval \<Rightarrow> string" where
  "the_string (JStr s) = s"
| "the_string v = []"

text \<open>
  The loop of \<open>use\<close> over the rows: the two assignments of a row, one after the other.
  An assignment that throws ends the loop with the session as it is then.
\<close>

fun load_rows :: "runtime \<Rightarrow> row list \<Rightarrow> session \<Rightarrow> (error + unit) \<times> session" where
  "load_rows rt [] s = (Inr (), s)"
| "load_rows rt (r # rs) s =
     (let deserializedValue = fromStorageFormat rt (val r) (value_type r) in
      case obj_set rt (key_path r) deserializedValue (flatData s) of
        Inl e \<Rightarrow> (Inl e, s)
      | Inr f \<Rightarrow>
          (case obj_set rt (key_path r) deserializedValue (originalFlatData s) of
             Inl e \<Rightarrow> (Inl e, s\<lparr>flatData := f\<rparr>)
           | Inr g \<Rightarrow> load_rows rt rs (s\<lparr>flatData := f, originalFlatData := g\<rparr>)))"

definition use :: "runtime \<Rightarrow> jsval \<Rightarrow> session \<Rightarrow> world \<Rightarrow> (error + unit) \<times> session \<times> world" where
  "use rt objId s w =
     (if \<not> isValidObjId objId then (Inl (InvalidObjectId objId), s, w)
      else
        let i = the_string objId;
            w1 = (if length (dirtyPaths s) > 0 \<or> length (deletedPaths s) > 0 then
                    w\<lparr>console := console w @
                      [''MaskQL: Switching to new object '' @ [CHR 0x22] @ i @ [CHR 0x22] @
                       '' with unsaved changes. Previous changes will be lost.'']\<rparr>
                  else w);
            s1 = \<lparr>currentObjId = Some i, flatData = plain [], originalFlatData = plain [],
                  dirtyPaths = [], deletedPaths = []\<rparr>
        in case d1_call w1 (SelectObject i) of
             (Some c, w2) \<Rightarrow> (Inl (LoadFailed i (cause_message c)), s1, w2)
           | (None, w2) \<Rightarrow>
               (case load_rows rt (filter (\<lambda>r. obj_id r = i) (rows w2)) s1 of
                  (Inl e, s2) \<Rightarrow> (Inl (LoadFailed i (error_message rt e)), s2, w2)
                | (Inr u, s2) \<Rightarrow> (Inr (), s2, w2)))"

definition get :: "runtime \<Rightarrow> jsval \<Rightarrow> session \<Rightarrow> error + jsval" where
  "get rt path s =
     (if \<not> isValidPath path then Inl (InvalidPath path)
      else if no_object s then Inl NoObjectLoaded
      else obj_get rt (flatData s) (the_string path))"

definition set_path :: "runtime \<Rightarrow> jsval \<Rightarrow> jsval \<Rightarrow> session \<Rightarrow> (error + unit) \<times> session" where
  "set_path rt path v s =
     (if \<not> isValidPath path then (Inl (InvalidPath path), s)
      else if no_object s then (Inl NoObjectLoaded, s)
      else
        let p = the_string path
        in (case obj_get rt (flatData s) p of
              Inl e \<Rightarrow> (Inl e, s)
            | Inr oldValue \<Rightarrow>
                (let s1 = (if p \<in> set (deletedPaths s)
                           then s\<lparr>deletedPaths := Set_delete p (deletedPaths s)\<rparr> else s)
                 in (case obj_set rt p v (flatData s1) of
                       Inl e \<Rightarrow> (Inl e, s1)
                     | Inr f \<Rightarrow>
                         (let s2 = s1\<lparr>flatData := f\<rparr>
                          in if \<not> strict_eq rt oldValue v
                             then (Inr (), s2\<lparr>dirtyPaths := Set_add p (dirtyPaths s2)\<rparr>)
                             else (Inr (), s2))))))"

definition delete :: "runtime \<Rightarrow> jsval \<Rightarrow> session \<Rightarrow> (error + unit) \<times> session" where
  "delete rt path s =
     (if \<not> isValidPath path then (Inl (InvalidPath path), s)
      else if no_object s then (Inl NoObjectLoaded, s)
      else
        let p = the_string path
        in if obj_in rt p (flatData s) then
             (Inr (), s\<lparr>flatData := (flatData s)\<lparr>props := obj_delete p (props (flatData s))\<rparr>,
                        deletedPaths := Set_add p (deletedPaths s),
                        dirtyPaths := Set_delete p (dirtyPaths s)\<rparr>)
           else (Inr (), s))"

text \<open>
  The two loops of \<open>save\<close> that prepare the statements: a delete for each path of
  \<open>deletedPaths\<close> that \<open>in\<close> finds in \<open>originalFlatData\<close>, then an upsert for each path of
  \<open>dirtyPaths\<close>, with the value \<open>flatData\<close> holds. Preparing a statement makes no call to
  the database.
\<close>

fun upsert_statements :: "runtime \<Rightarrow> string \<Rightarrow> object \<Rightarrow> string list \<Rightarrow> error + stmt list" where
  "upsert_statements rt i f [] = Inr []"
| "upsert_statements rt i f (p # ps) =
     (case obj_get rt f p of
        Inl e \<Rightarrow> Inl e
      | Inr v \<Rightarrow>
          (case toStorageFormat rt v of
             (serializedValue, valueType) \<Rightarrow>
               (case upsert_statements rt i f ps of
                  Inl e \<Rightarrow> Inl e
                | Inr stmts \<Rightarrow> Inr (UpsertRow i p serializedValue valueType # stmts))))"

definition save_statements :: "runtime \<Rightarrow> string \<Rightarrow> session \<Rightarrow> error + stmt list" where
  "save_statements rt i s =
     (case upsert_statements rt i (flatData s) (dirtyPaths s) of
        Inl e \<Rightarrow> Inl e
      | Inr upserts \<Rightarrow>
          Inr (map (DeleteRow i) (filter (\<lambda>p. obj_in rt p (originalFlatData s)) (deletedPaths s))
               @ upserts))"

text \<open>
  \<open>save\<close>. What the \<open>try\<close> block throws is caught and thrown again as the error of
  \<open>save\<close>, built from the object id and the message of what was caught.
  \<open>{ ...this.flatData }\<close> is a new object with the own properties of \<open>flatData\<close>.
\<close>

definition save :: "runtime \<Rightarrow> session \<Rightarrow> world \<Rightarrow> (error + unit) \<times> session \<times> world" where
  "save rt s w =
     (case currentObjId s of
        None \<Rightarrow> (Inl NoObjectLoaded, s, w)
      | Some i \<Rightarrow>
          if i = [] then (Inl NoObjectLoaded, s, w)
          else
            (case save_statements rt i s of
               Inl e \<Rightarrow> (Inl (SaveFailed i (error_message rt e)), s, w)
             | Inr statements \<Rightarrow>
                 let saved = s\<lparr>originalFlatData := plain (props (flatData s)),
                               dirtyPaths := [], deletedPaths := []\<rparr>
                 in if statements \<noteq> [] then
                      (case d1_call w (Batch statements) of
                         (Some c, w1) \<Rightarrow> (Inl (SaveFailed i (cause_message c)), s, w1)
                       | (None, w1) \<Rightarrow>
                           (Inr (), saved, w1\<lparr>rows := run_batch statements (rows w1)\<rparr>))
                    else (Inr (), saved, w)))"

definition hasUnsavedChanges :: "session \<Rightarrow> bool" where
  "hasUnsavedChanges s = (length (dirtyPaths s) > 0 \<or> length (deletedPaths s) > 0)"

text \<open>The second loop of \<open>setAll\<close>, over the own properties of the flattened object.\<close>

fun setAll_entries :: "runtime \<Rightarrow> dict \<Rightarrow> session \<Rightarrow> (error + unit) \<times> session" where
  "setAll_entries rt [] s = (Inr (), s)"
| "setAll_entries rt ((path, v) # rest) s =
     (case obj_set rt path v (flatData s) of
        Inl e \<Rightarrow> (Inl e, s)
      | Inr f \<Rightarrow>
          setAll_entries rt rest
            (s\<lparr>flatData := f,
               dirtyPaths := Set_add path (dirtyPaths s),
               deletedPaths := Set_delete path (deletedPaths s)\<rparr>))"

definition setAll :: "runtime \<Rightarrow> jsval \<Rightarrow> session \<Rightarrow> (error + unit) \<times> session" where
  "setAll rt obj s =
     (if no_object s then (Inl NoObjectLoaded, s)
      else
        let s1 = s\<lparr>deletedPaths := fold Set_add (map fst (props (flatData s))) (deletedPaths s)\<rparr>
        in case flatten rt obj [] (plain []) of
             Inl e \<Rightarrow> (Inl e, s1)
           | Inr newFlatData \<Rightarrow> setAll_entries rt (props newFlatData) (s1\<lparr>flatData := plain []\<rparr>))"

text \<open>\<open>objId || this.currentObjId\<close>: a falsy argument stands for the active object.\<close>

definition deleteObject :: "jsval \<Rightarrow> session \<Rightarrow> world \<Rightarrow> (error + unit) \<times> session \<times> world" where
  "deleteObject objId s w =
     (let targetObjId = (if falsy objId
                         then (case currentObjId s of None \<Rightarrow> JNull | Some c \<Rightarrow> JStr c)
                         else objId)
      in if falsy targetObjId then (Inl NoObjectIdSpecified, s, w)
         else if \<not> isValidObjId targetObjId then (Inl (InvalidObjectId targetObjId), s, w)
         else
           let t = the_string targetObjId
           in case d1_call w (DeleteObject t) of
                (Some c, w1) \<Rightarrow> (Inl (DeleteFailed t (cause_message c)), s, w1)
              | (None, w1) \<Rightarrow>
                  (Inr (),
                   (if Some t = currentObjId s then new_session else s),
                   w1\<lparr>rows := filter (\<lambda>r. obj_id r \<noteq> t) (rows w1)\<rparr>))"

definition exists :: "jsval \<Rightarrow> session \<Rightarrow> world \<Rightarrow> (error + bool) \<times> session \<times> world" where
  "exists objId s w =
     (if \<not> isValidObjId objId then (Inl (InvalidObjectId objId), s, w)
      else
        let i = the_string objId
        in case d1_call w (CountObject i) of
             (Some c, w1) \<Rightarrow> (Inl (ExistsFailed i (cause_message c)), s, w1)
           | (None, w1) \<Rightarrow> (Inr (length (filter (\<lambda>r. obj_id r = i) (rows w1)) > 0), s, w1))"

section \<open>Notions of the claims\<close>

text \<open>No path is in both \<open>dirtyPaths\<close> and \<open>deletedPaths\<close>.\<close>

definition trackers_disjoint :: "session \<Rightarrow> bool" where
  "trackers_disjoint s = (set (dirtyPaths s) \<inter> set (deletedPaths s) = {})"

text \<open>The paths the table holds for an object.\<close>

definition paths_of :: "string \<Rightarrow> row list \<Rightarrow> string set" where
  "paths_of i rs = key_path ` {r \<in> set rs. obj_id r = i}"

definition stored_paths :: "string \<Rightarrow> world \<Rightarrow> string set" where
  "stored_paths i w = key_path ` {r \<in> set (rows w). obj_id r = i}"

text \<open>
  A primitive value: \<open>===\<close> compares it by value, and the code cannot change it in
  place.
\<close>

definition is_primitive :: "jsval \<Rightarrow> bool" where
  "is_primitive v = (v = JNull \<or> (typeof v \<noteq> ''object'' \<and> typeof v \<noteq> ''function''))"

section \<open>A run of the engine for the examples\<close>

text \<open>
  The built-ins at the arguments the examples below pass to them; elsewhere the value
  is arbitrary and no example depends on it. Two objects are never the same reference.
\<close>

definition example_runtime :: runtime where
  "example_runtime =
     \<lparr>JSON_stringify = (\<lambda>v. if v = JArr [JNum (Fin 1), JNum (Fin 2)] then ''[1,2]'' else ''{}''),
      JSON_parse = (\<lambda>s. if s = ''[1,2]'' then Some (JArr [JNum (Fin 1), JNum (Fin 2)]) else None),
      Number_toString = (\<lambda>n. if n = Fin 1 then ''1'' else ''NaN''),
      ToNumber = (\<lambda>s. if s = ''1'' then Fin 1 else NaN),
      Object_toString = (\<lambda>v. ''[object Object]''),
      same_reference = (\<lambda>a b. False),
      builtin_slot = (\<lambda>p k. Missing),
      TypeError_message = (\<lambda>p k. ''TypeError'')\<rparr>"

text \<open>A database that holds no row and rejects no call.\<close>

definition empty_world :: world where
  "empty_world = \<lparr>rows = [], calls = [], rejects = (\<lambda>n c. None), console = []\<rparr>"

text \<open>
  Two databases that reject every call, with errors of the same message and different
  names; and a database that holds a row of the object \<open>o\<close>.
\<close>

definition rejecting_world :: world where
  "rejecting_world =
     \<lparr>rows = [], calls = [],
      rejects = (\<lambda>n c. Some \<lparr>cause_name = ''Error'', cause_message = ''D1_ERROR''\<rparr>),
      console = []\<rparr>"

definition timeout_world :: world where
  "timeout_world =
     \<lparr>rows = [], calls = [],
      rejects = (\<lambda>n c. Some \<lparr>cause_name = ''TimeoutError'', cause_message = ''D1_ERROR''\<rparr>),
      console = []\<rparr>"

definition stored_world :: world where
  "stored_world =
     \<lparr>rows = [\<lparr>obj_id = ''o'', key_path = ''a'', val = Some ''x'', value_type = Some ''string''\<rparr>],
      calls = [], rejects = (\<lambda>n c. None), console = []\<rparr>"

text \<open>A database that holds a row of the object \<open>o\<close> with the path \<open>__proto__\<close>.\<close>

definition proto_world :: world where
  "proto_world =
     \<lparr>rows = [\<lparr>obj_id = ''o'', key_path = ''__proto__'', val = Some ''[1,2]'',
               value_type = Some ''array''\<rparr>],
      calls = [], rejects = (\<lambda>n c. None), console = []\<rparr>"

text \<open>The session after \<open>use('o')\<close> on the empty table, and on the table with the row.\<close>

definition loaded_session :: session where
  "loaded_session = \<lparr>currentObjId = Some ''o'', flatData = plain [], originalFlatData = plain [],
                      dirtyPaths = [], deletedPaths = []\<rparr>"

definition stored_session :: session where
  "stored_session = \<lparr>currentObjId = Some ''o'', flatData = plain [(''a'', JStr ''x'')],
                      originalFlatData = plain [(''a'', JStr ''x'')],
                      dirtyPaths = [], deletedPaths = []\<rparr>"

text \<open>Sessions with a pending write: a new path, and a new value of the stored path;
  and the latter after its \<open>save\<close>.\<close>

definition dirty_session :: session where
  "dirty_session = \<lparr>currentObjId = Some ''o'', flatData = plain [(''q'', JNum (Fin 1))],
                     originalFlatData = plain [], dirtyPaths = [''q''], deletedPaths = []\<rparr>"

definition changed_session :: session where
  "changed_session = \<lparr>currentObjId = Some ''o'', flatData = plain [(''a'', JStr ''y'')],
                       originalFlatData = plain [(''a'', JStr ''x'')],
                       dirtyPaths = [''a''], deletedPaths = []\<rparr>"

definition saved_session :: session where
  "saved_session = \<lparr>currentObjId = Some ''o'', flatData = plain [(''a'', JStr ''y'')],
                     originalFlatData = plain [(''a'', JStr ''y'')],
                     dirtyPaths = [], deletedPaths = []\<rparr>"

text \<open>
  The session after \<open>use('o')\<close> on the table with the row of the path \<open>__proto__\<close>:
  the array of the row is the prototype of \<open>flatData\<close> and of \<open>originalFlatData\<close>.
\<close>

definition proto_session :: session where
  "proto_session =
     \<lparr>currentObjId = Some ''o'',
      flatData = \<lparr>props = [], proto = JArr [JNum (Fin 1), JNum (Fin 2)]\<rparr>,
      originalFlatData = \<lparr>props = [], proto = JArr [JNum (Fin 1), JNum (Fin 2)]\<rparr>,
      dirtyPaths = [], deletedPaths = []\<rparr>"

text \<open>An object with a nested object, an array and \<open>null\<close>.\<close>

definition round_trip_example :: jsval where
  "round_trip_example =
     JObj [(''a'', JObj [(''b'', JNum (Fin 1))]),
           (''arr'', JArr [JNum (Fin 1), JNum (Fin 2)]),
           (''val'', JNull)]"

lemmas eval_defs =
  use_def get_def set_path_def delete_def save_def save_statements_def setAll_def
  deleteObject_def exists_def hasUnsavedChanges_def no_object_def d1_call_def run_batch_def
  new_session_def empty_world_def rejecting_world_def timeout_world_def stored_world_def
  proto_world_def loaded_session_def stored_session_def dirty_session_def changed_session_def
  saved_session_def proto_session_def
  example_runtime_def Let_def
  fromStorageFormat_def deserializeValue_def column_value_def toStorageFormat_def serializeValue_def
  obj_set_def obj_get_def obj_in_def obj_delete_def own_set_def has_own_def add_own_def
  array_index_def is_digit_def digits_value_def array_slot_def builtin_chain_def
  object_prototype_names_def object_prototype_slot_def plain_def
  assign_def Set_add_def Set_delete_def
  trim_def is_whitespace_def startsWith_def endsWith_def

lemma use_example:
  "use example_runtime (JStr ''o'') new_session empty_world =
     (Inr (), loaded_session, empty_world\<lparr>calls := [SelectObject ''o'']\<rparr>)"
  by (simp add: eval_defs)

lemma use_stored:
  "use example_runtime (JStr ''o'') new_session stored_world =
     (Inr (), stored_session, stored_world\<lparr>calls := [SelectObject ''o'']\<rparr>)"
  by (simp add: eval_defs)

lemma load_rows_trackers:
  "dirtyPaths (snd (load_rows rt rs s)) = dirtyPaths s \<and>
   deletedPaths (snd (load_rows rt rs s)) = deletedPaths s \<and>
   currentObjId (snd (load_rows rt rs s)) = currentObjId s"
  by (induction rs arbitrary: s) (simp_all add: Let_def split: sum.splits)

section \<open>The session: trackers\<close>

text \<open>
  C2, the invariant that no path is in both \<open>dirtyPaths\<close> and \<open>deletedPaths\<close>. \<open>delete\<close>
  takes the path out of \<open>dirtyPaths\<close> when it adds it to \<open>deletedPaths\<close>, and \<open>set\<close>
  takes it out of \<open>deletedPaths\<close>; \<open>setAll\<close> adds every path of \<open>flatData\<close> to
  \<open>deletedPaths\<close> and leaves \<open>dirtyPaths\<close> as it is. After \<open>use('o')\<close>, \<open>set('q', 1)\<close> and
  \<open>setAll({})\<close> the path \<open>q\<close> is in both sets.
\<close>

theorem setAll_keeps_dirty_path:
  "use example_runtime (JStr ''o'') new_session empty_world =
     (Inr (), loaded_session, empty_world\<lparr>calls := [SelectObject ''o'']\<rparr>) \<and>
   set_path example_runtime (JStr ''q'') (JNum (Fin 1)) loaded_session =
     (Inr (), loaded_session\<lparr>flatData := plain [(''q'', JNum (Fin 1))], dirtyPaths := [''q'']\<rparr>) \<and>
   setAll example_runtime (JObj [])
       (loaded_session\<lparr>flatData := plain [(''q'', JNum (Fin 1))], dirtyPaths := [''q'']\<rparr>) =
     (Inr (), loaded_session\<lparr>dirtyPaths := [''q''], deletedPaths := [''q'']\<rparr>)"
  by (simp add: eval_defs flatten.simps)

text \<open>
  Every other operation keeps the two sets apart, whatever it returns, and so does
  \<open>setAll\<close> on a session with no path in \<open>dirtyPaths\<close>.
\<close>

lemma set_Set_add: "set (Set_add x xs) = insert x (set xs)"
  by (auto simp: Set_add_def)

lemma set_Set_delete: "set (Set_delete x xs) = set xs - {x}"
  by (auto simp: Set_delete_def)

lemma set_fold_Set_add: "set (fold Set_add ks xs) = set ks \<union> set xs"
  by (induction ks arbitrary: xs) (auto simp: set_Set_add)

lemma use_session:
  assumes "isValidObjId objId" and "use rt objId s w = (r, s', w')"
  shows "\<exists>rs. s' = snd (load_rows rt rs \<lparr>currentObjId = Some (the_string objId), flatData = plain [],
            originalFlatData = plain [], dirtyPaths = [], deletedPaths = []\<rparr>)"
proof -
  define s1 where "s1 = \<lparr>currentObjId = Some (the_string objId), flatData = plain [],
    originalFlatData = plain [], dirtyPaths = [], deletedPaths = []\<rparr>"
  have nil: "s1 = snd (load_rows rt [] s1)" by simp
  obtain c w2 where c: "d1_call (if length (dirtyPaths s) > 0 \<or> length (deletedPaths s) > 0 then
                    w\<lparr>console := console w @
                      [''MaskQL: Switching to new object '' @ [CHR 0x22] @ the_string objId @ [CHR 0x22] @
                       '' with unsaved changes. Previous changes will be lost.'']\<rparr>
                  else w) (SelectObject (the_string objId)) = (c, w2)"
    by (cases "d1_call (if length (dirtyPaths s) > 0 \<or> length (deletedPaths s) > 0 then
                    w\<lparr>console := console w @
                      [''MaskQL: Switching to new object '' @ [CHR 0x22] @ the_string objId @ [CHR 0x22] @
                       '' with unsaved changes. Previous changes will be lost.'']\<rparr>
                  else w) (SelectObject (the_string objId))") auto
  show ?thesis
  proof (cases c)
    case None
    obtain x s2 where l: "load_rows rt (filter (\<lambda>r. obj_id r = the_string objId) (rows w2)) s1 = (x, s2)"
      by (cases "load_rows rt (filter (\<lambda>r. obj_id r = the_string objId) (rows w2)) s1") auto
    have "s' = s2"
      using assms c None l unfolding use_def Let_def s1_def [symmetric]
      by (cases x) simp_all
    then have "s' = snd (load_rows rt (filter (\<lambda>r. obj_id r = the_string objId) (rows w2)) s1)"
      by (simp add: l)
    then show ?thesis unfolding s1_def by blast
  next
    case (Some m)
    have "s' = s1"
      using assms c Some unfolding use_def Let_def s1_def [symmetric] by simp
    with nil show ?thesis unfolding s1_def by metis
  qed
qed

lemma use_trackers_disjoint:
  assumes "trackers_disjoint s" and "use rt objId s w = (r, s', w')"
  shows "trackers_disjoint s'"
proof (cases "isValidObjId objId")
  case False
  with assms show ?thesis by (simp add: use_def)
next
  case True
  from use_session [OF True assms(2)] obtain rs where
    "s' = snd (load_rows rt rs \<lparr>currentObjId = Some (the_string objId), flatData = plain [],
            originalFlatData = plain [], dirtyPaths = [], deletedPaths = []\<rparr>)" by blast
  then show ?thesis
    by (simp add: trackers_disjoint_def load_rows_trackers)
qed

lemma set_path_trackers_disjoint:
  assumes "trackers_disjoint s" and "set_path rt path v s = (r, s')"
  shows "trackers_disjoint s'"
  using assms
  by (auto simp: set_path_def Let_def trackers_disjoint_def set_Set_add set_Set_delete
           split: if_splits sum.splits)

lemma delete_trackers_disjoint:
  assumes "trackers_disjoint s" and "delete rt path s = (r, s')"
  shows "trackers_disjoint s'"
  using assms
  by (auto simp: delete_def Let_def trackers_disjoint_def set_Set_add set_Set_delete
           split: if_splits)

lemma save_trackers_disjoint:
  assumes "trackers_disjoint s" and "save rt s w = (r, s', w')"
  shows "trackers_disjoint s'"
  using assms
  by (auto simp: save_def Let_def trackers_disjoint_def d1_call_def
           split: if_splits option.splits sum.splits)

lemma deleteObject_trackers_disjoint:
  assumes "trackers_disjoint s" and "deleteObject objId s w = (r, s', w')"
  shows "trackers_disjoint s'"
  using assms
  by (auto simp: deleteObject_def Let_def trackers_disjoint_def d1_call_def new_session_def
           split: if_splits option.splits)

lemma setAll_entries_disjoint:
  "trackers_disjoint s \<Longrightarrow> trackers_disjoint (snd (setAll_entries rt es s))"
proof (induction es arbitrary: s)
  case Nil
  then show ?case by simp
next
  case (Cons e es)
  obtain p v where e: "e = (p, v)" by (cases e)
  show ?case
  proof (cases "obj_set rt p v (flatData s)")
    case (Inl err)
    then show ?thesis using Cons.prems by (simp add: e)
  next
    case (Inr f)
    have "trackers_disjoint (s\<lparr>flatData := f, dirtyPaths := Set_add p (dirtyPaths s),
                                deletedPaths := Set_delete p (deletedPaths s)\<rparr>)"
      using Cons.prems by (auto simp: trackers_disjoint_def set_Set_add set_Set_delete)
    then show ?thesis using Inr Cons.IH by (simp add: e)
  qed
qed

lemma setAll_trackers_disjoint:
  assumes "dirtyPaths s = []" and "setAll rt obj s = (r, s')"
  shows "trackers_disjoint s'"
proof (cases "no_object s")
  case True
  with assms show ?thesis by (simp add: setAll_def trackers_disjoint_def)
next
  case False
  define s1 where
    "s1 = s\<lparr>deletedPaths := fold Set_add (map fst (props (flatData s))) (deletedPaths s)\<rparr>"
  have d1: "trackers_disjoint s1" using assms(1) by (simp add: s1_def trackers_disjoint_def)
  show ?thesis
  proof (cases "flatten rt obj [] (plain [])")
    case (Inl e)
    then have "s' = s1" using assms(2) False by (simp add: setAll_def Let_def s1_def)
    with d1 show ?thesis by simp
  next
    case (Inr f)
    have "trackers_disjoint (s1\<lparr>flatData := plain []\<rparr>)"
      using d1 by (simp add: trackers_disjoint_def)
    then have "trackers_disjoint (snd (setAll_entries rt (props f) (s1\<lparr>flatData := plain []\<rparr>)))"
      by (rule setAll_entries_disjoint)
    moreover have "s' = snd (setAll_entries rt (props f) (s1\<lparr>flatData := plain []\<rparr>))"
      using assms(2) False Inr by (simp add: setAll_def Let_def s1_def)
    ultimately show ?thesis by simp
  qed
qed

text \<open>
  C3, that \<open>setAll(obj)\<close> and a successful \<open>save()\<close> leave exactly the paths of
  \<open>flatten(obj)\<close> in the table. The path \<open>q\<close> of the run above is still in
  \<open>dirtyPaths\<close> at the \<open>save()\<close>, which writes a row for it, of type \<open>undefined\<close>;
  \<open>flatten({})\<close> has no path.
\<close>

theorem setAll_save_persists_stale_path:
  "flatten example_runtime (JObj []) [] (plain []) = Inr (plain []) \<and>
   save example_runtime (loaded_session\<lparr>dirtyPaths := [''q''], deletedPaths := [''q'']\<rparr>)
       (empty_world\<lparr>calls := [SelectObject ''o'']\<rparr>) =
     (Inr (), loaded_session,
      empty_world\<lparr>rows := [\<lparr>obj_id = ''o'', key_path = ''q'', val = Some [],
                                value_type = Some ''undefined''\<rparr>],
                   calls := [SelectObject ''o'', Batch [UpsertRow ''o'' ''q'' [] ''undefined'']]\<rparr>)"
  by (simp add: eval_defs flatten.simps)

text \<open>
  On a session with no pending change, whose snapshot has the paths of the table,
  \<open>setAll(obj)\<close> and a successful \<open>save()\<close> leave exactly the paths of \<open>flatten(obj)\<close>
  in the table.
\<close>

lemma paths_of_upsert_row:
  "paths_of (obj_id r) (upsert_row r rs) = insert (key_path r) (paths_of (obj_id r) rs)"
  by (induction rs) (auto simp: paths_of_def)

lemma paths_of_delete:
  "paths_of i (run_stmt (DeleteRow i p) rs) = paths_of i rs - {p}"
  by (auto simp: paths_of_def)

lemma paths_of_upsert:
  "paths_of i (run_stmt (UpsertRow i p v t) rs) = insert p (paths_of i rs)"
  using paths_of_upsert_row [of "\<lparr>obj_id = i, key_path = p, val = Some v, value_type = Some t\<rparr>" rs]
  by simp

lemma paths_of_deletes:
  "paths_of i (fold run_stmt (map (DeleteRow i) ds) rs) = paths_of i rs - set ds"
  by (induction ds arbitrary: rs) (auto simp: paths_of_delete simp del: run_stmt.simps)

lemma paths_of_upserts:
  "paths_of i (fold run_stmt (map (\<lambda>p. UpsertRow i p (f p) (g p)) us) rs) = paths_of i rs \<union> set us"
  by (induction us arbitrary: rs) (auto simp: paths_of_upsert simp del: run_stmt.simps)

lemma upsert_statements_paths:
  "upsert_statements rt i f ps = Inr st \<Longrightarrow>
   st = map (\<lambda>p. UpsertRow i p (fst (toStorageFormat rt (projr (obj_get rt f p))))
                               (snd (toStorageFormat rt (projr (obj_get rt f p))))) ps"
  by (induction ps arbitrary: st) (auto split: sum.splits prod.splits)

lemma setAll_entries_ok:
  "setAll_entries rt es s = (Inr (), s') \<Longrightarrow>
   set (dirtyPaths s') = set (dirtyPaths s) \<union> fst ` set es \<and>
   set (deletedPaths s') = set (deletedPaths s) - fst ` set es \<and>
   currentObjId s' = currentObjId s \<and> originalFlatData s' = originalFlatData s"
proof (induction es arbitrary: s)
  case Nil
  then show ?case by simp
next
  case (Cons e es)
  obtain p v where e: "e = (p, v)" by (cases e)
  from Cons.prems obtain f where f: "obj_set rt p v (flatData s) = Inr f"
    and rest: "setAll_entries rt es (s\<lparr>flatData := f, dirtyPaths := Set_add p (dirtyPaths s),
                 deletedPaths := Set_delete p (deletedPaths s)\<rparr>) = (Inr (), s')"
    by (auto simp: e split: sum.splits)
  from Cons.IH [OF rest] show ?case
    by (simp add: e set_Set_add set_Set_delete) blast
qed

lemma setAll_save_on_clean_session:
  assumes act: "currentObjId s = Some i" "i \<noteq> []"
    and clean: "dirtyPaths s = []" "deletedPaths s = []"
      "props (flatData s) = props (originalFlatData s)"
    and sync: "stored_paths i w = fst ` set (props (originalFlatData s))"
    and sa: "setAll rt obj s = (Inr (), s1)" and sv: "save rt s1 w = (Inr (), s2, w2)"
  shows "\<exists>f. flatten rt obj [] (plain []) = Inr f \<and> stored_paths i w2 = fst ` set (props f)"
proof -
  from sa act obtain f where fl: "flatten rt obj [] (plain []) = Inr f"
    and s1: "setAll_entries rt (props f)
               (s\<lparr>deletedPaths := fold Set_add (map fst (props (flatData s))) (deletedPaths s),
                  flatData := plain []\<rparr>) = (Inr (), s1)"
    by (auto simp: setAll_def Let_def no_object_def split: sum.splits)
  define New where "New = fst ` set (props f)"
  define Old where "Old = fst ` set (props (originalFlatData s))"
  note ok = setAll_entries_ok [OF s1]
  have id1: "currentObjId s1 = Some i" and orig1: "originalFlatData s1 = originalFlatData s"
    using ok by (simp_all add: act)
  have dirty1: "set (dirtyPaths s1) = New"
    using ok by (simp add: New_def clean)
  have del1: "set (deletedPaths s1) = Old - New"
    using ok by (simp add: New_def Old_def set_fold_Set_add clean)
  have keep: "filter (\<lambda>p. obj_in rt p (originalFlatData s1)) (deletedPaths s1) = deletedPaths s1"
  proof -
    have "obj_in rt p (originalFlatData s1)" if "p \<in> set (deletedPaths s1)" for p
    proof -
      from that del1 have "p \<in> Old" by simp
      then show ?thesis by (simp add: obj_in_def has_own_def orig1 Old_def)
    qed
    then have "\<forall>p \<in> set (deletedPaths s1). obj_in rt p (originalFlatData s1)" by blast
    then show ?thesis by (rule filter_True)
  qed
  from sv id1 act obtain stmts where st: "save_statements rt i s1 = Inr stmts"
    by (auto simp: save_def split: sum.splits)
  then obtain ups where ups: "upsert_statements rt i (flatData s1) (dirtyPaths s1) = Inr ups"
    and stmts0: "stmts = map (DeleteRow i) (deletedPaths s1) @ ups"
    by (auto simp: save_statements_def keep split: sum.splits)
  define g where "g p = fst (toStorageFormat rt (projr (obj_get rt (flatData s1) p)))" for p
  define h where "h p = snd (toStorageFormat rt (projr (obj_get rt (flatData s1) p)))" for p
  have stmts: "stmts =
      map (DeleteRow i) (deletedPaths s1) @ map (\<lambda>p. UpsertRow i p (g p) (h p)) (dirtyPaths s1)"
    using upsert_statements_paths [OF ups] by (simp add: stmts0 g_def h_def)
  have after: "paths_of i (run_batch stmts rs) = paths_of i rs - (Old - New) \<union> New" for rs
    by (simp only: stmts run_batch_def fold_append comp_apply paths_of_deletes paths_of_upserts
        dirty1 del1)
  have sp: "stored_paths i w' = paths_of i (rows w')" for w'
    by (simp add: stored_paths_def paths_of_def)
  have old: "paths_of i (rows w) = Old"
    using sync by (simp add: sp Old_def)
  have "stored_paths i w2 = New"
  proof (cases "stmts = []")
    case True
    then have e: "deletedPaths s1 = []" "dirtyPaths s1 = []" by (simp_all add: stmts)
    from e(2) dirty1 have n: "New = {}" by simp
    from e(1) del1 n have o: "Old = {}" by simp
    have "w2 = w" using sv True st by (simp add: save_def id1 act)
    then show ?thesis using old n o by (simp add: sp)
  next
    case False
    have "save rt s1 w = (case d1_call w (Batch stmts) of
            (Some c, w1) \<Rightarrow> (Inl (SaveFailed i (cause_message c)), s1, w1)
          | (None, w1) \<Rightarrow>
              (Inr (), s1\<lparr>originalFlatData := plain (props (flatData s1)),
                           dirtyPaths := [], deletedPaths := []\<rparr>,
               w1\<lparr>rows := run_batch stmts (rows w1)\<rparr>))"
      using False st by (simp add: save_def id1 act Let_def)
    with sv have "rows w2 = run_batch stmts (rows w)"
      by (auto simp: d1_call_def split: option.splits)
    then have "stored_paths i w2 = Old - (Old - New) \<union> New"
      by (simp only: sp after old)
    then show ?thesis by blast
  qed
  with fl show ?thesis unfolding New_def by blast
qed

section \<open>The session: unsaved changes\<close>

lemma use_ok_clean:
  assumes "use rt objId s0 w0 = (Inr (), s1, w1)"
  shows "dirtyPaths s1 = [] \<and> deletedPaths s1 = []"
proof -
  have v: "isValidObjId objId"
    using assms by (auto simp: use_def split: if_splits)
  from use_session [OF v assms] obtain rs where
    "s1 = snd (load_rows rt rs \<lparr>currentObjId = Some (the_string objId), flatData = plain [],
            originalFlatData = plain [], dirtyPaths = [], deletedPaths = []\<rparr>)" by blast
  then show ?thesis by (simp add: load_rows_trackers)
qed

lemma set_path_trackers:
  assumes "set_path rt path v s = (Inr (), s')"
  shows "\<exists>old. obj_get rt (flatData s) (the_string path) = Inr old \<and>
         deletedPaths s' = Set_delete (the_string path) (deletedPaths s) \<and>
         dirtyPaths s' = (if strict_eq rt old v
                          then dirtyPaths s else Set_add (the_string path) (dirtyPaths s))"
proof -
  define p where "p = the_string path"
  define s1 where "s1 = (if p \<in> set (deletedPaths s)
                         then s\<lparr>deletedPaths := Set_delete p (deletedPaths s)\<rparr> else s)"
  have valid: "isValidPath path" and obj: "\<not> no_object s"
    using assms by (auto simp: set_path_def split: if_splits)
  have d1: "deletedPaths s1 = Set_delete p (deletedPaths s)" and y1: "dirtyPaths s1 = dirtyPaths s"
    and f1: "flatData s1 = flatData s"
    by (simp_all add: s1_def Set_delete_def)
  show ?thesis
  proof (cases "obj_get rt (flatData s) p")
    case (Inl e)
    with assms valid obj show ?thesis by (simp add: set_path_def p_def)
  next
    case old: (Inr old)
    show ?thesis
    proof (cases "obj_set rt p v (flatData s)")
      case (Inl e)
      with assms valid obj old show ?thesis
        by (simp add: set_path_def p_def [symmetric] Let_def s1_def [symmetric] f1)
    next
      case (Inr f)
      have "s' = (if \<not> strict_eq rt old v
                  then s1\<lparr>flatData := f, dirtyPaths := Set_add p (dirtyPaths s1)\<rparr>
                  else s1\<lparr>flatData := f\<rparr>)"
        using assms valid obj old Inr
        by (simp add: set_path_def p_def [symmetric] Let_def s1_def [symmetric] f1 split: if_splits)
      then show ?thesis
        using old d1 y1 by (auto simp: p_def)
    qed
  qed
qed

lemma save_ok_clean:
  assumes "save rt s w = (Inr (), s', w')"
  shows "dirtyPaths s' = [] \<and> deletedPaths s' = []"
  using assms
  by (auto simp: save_def Let_def split: if_splits prod.splits option.splits sum.splits)

text \<open>
  C4, as amended. After a successful \<open>use(id)\<close>, \<open>hasUnsavedChanges()\<close> is false. After one
  successful \<open>set(path, value)\<close> on that session it is true when \<open>value\<close> is not \<open>===\<close>
  the value the session read at the path before, and false when \<open>value\<close> is a primitive
  that is \<open>===\<close> that value: \<open>set\<close> marks a path when its value changes. After a
  successful \<open>save()\<close> it is false.
\<close>

theorem unsaved_changes_lifecycle:
  assumes "use rt objId s0 w0 = (Inr (), s1, w1)"
  shows "\<not> hasUnsavedChanges s1 \<and>
         (\<forall>path v s2. set_path rt path v s1 = (Inr (), s2) \<longrightarrow>
            (\<exists>old. obj_get rt (flatData s1) (the_string path) = Inr old \<and>
               (\<not> strict_eq rt old v \<longrightarrow> hasUnsavedChanges s2) \<and>
               (is_primitive v \<and> strict_eq rt old v \<longrightarrow> \<not> hasUnsavedChanges s2)) \<and>
            (\<forall>w2 s3 w3. save rt s2 w2 = (Inr (), s3, w3) \<longrightarrow> \<not> hasUnsavedChanges s3))"
proof -
  have clean: "dirtyPaths s1 = []" "deletedPaths s1 = []"
    using use_ok_clean [OF assms] by simp_all
  have first: "\<not> hasUnsavedChanges s1"
    using clean by (simp add: hasUnsavedChanges_def)
  have second: "\<exists>old. obj_get rt (flatData s1) (the_string path) = Inr old \<and>
               (\<not> strict_eq rt old v \<longrightarrow> hasUnsavedChanges s2) \<and>
               (is_primitive v \<and> strict_eq rt old v \<longrightarrow> \<not> hasUnsavedChanges s2)"
    if "set_path rt path v s1 = (Inr (), s2)" for path v s2
  proof -
    from set_path_trackers [OF that] obtain old where
      old: "obj_get rt (flatData s1) (the_string path) = Inr old"
      and del: "deletedPaths s2 = Set_delete (the_string path) (deletedPaths s1)"
      and dirty: "dirtyPaths s2 = (if strict_eq rt old v
                          then dirtyPaths s1 else Set_add (the_string path) (dirtyPaths s1))"
      by blast
    have "hasUnsavedChanges s2 \<longleftrightarrow> \<not> strict_eq rt old v"
      using del dirty clean by (simp add: hasUnsavedChanges_def Set_add_def Set_delete_def)
    with old show ?thesis by blast
  qed
  have third: "\<not> hasUnsavedChanges s3" if "save rt s2 w2 = (Inr (), s3, w3)" for s2 w2 s3 w3
    using save_ok_clean [OF that] by (simp add: hasUnsavedChanges_def)
  show ?thesis using first second third by blast
qed

lemma set_changed:
  "set_path example_runtime (JStr ''a'') (JStr ''y'') stored_session = (Inr (), changed_session)"
  by (simp add: eval_defs)

lemma set_unchanged:
  "set_path example_runtime (JStr ''a'') (JStr ''x'') stored_session = (Inr (), stored_session)"
  by (simp add: eval_defs)

lemma save_changed:
  "save example_runtime changed_session (stored_world\<lparr>calls := [SelectObject ''o'']\<rparr>) =
     (Inr (), saved_session,
      stored_world\<lparr>rows := [\<lparr>obj_id = ''o'', key_path = ''a'', val = Some ''y'',
                                 value_type = Some ''string''\<rparr>],
                    calls := [SelectObject ''o'', Batch [UpsertRow ''o'' ''a'' ''y'' ''string'']]\<rparr>)"
  by (simp add: eval_defs)

theorem unsaved_changes_lifecycle_witness:
  "use example_runtime (JStr ''o'') new_session stored_world =
     (Inr (), stored_session, stored_world\<lparr>calls := [SelectObject ''o'']\<rparr>) \<and>
   \<not> hasUnsavedChanges stored_session \<and>
   obj_get example_runtime (flatData stored_session) ''a'' = Inr (JStr ''x'') \<and>
   set_path example_runtime (JStr ''a'') (JStr ''y'') stored_session = (Inr (), changed_session) \<and>
   \<not> strict_eq example_runtime (JStr ''x'') (JStr ''y'') \<and>
   hasUnsavedChanges changed_session \<and>
   set_path example_runtime (JStr ''a'') (JStr ''x'') stored_session = (Inr (), stored_session) \<and>
   is_primitive (JStr ''x'') \<and> strict_eq example_runtime (JStr ''x'') (JStr ''x'') \<and>
   save example_runtime changed_session (stored_world\<lparr>calls := [SelectObject ''o'']\<rparr>) =
     (Inr (), saved_session,
      stored_world\<lparr>rows := [\<lparr>obj_id = ''o'', key_path = ''a'', val = Some ''y'',
                                 value_type = Some ''string''\<rparr>],
                    calls := [SelectObject ''o'', Batch [UpsertRow ''o'' ''a'' ''y'' ''string'']]\<rparr>) \<and>
   \<not> hasUnsavedChanges saved_session"
proof -
  note t = unsaved_changes_lifecycle [OF use_stored]
  have first: "\<not> hasUnsavedChanges stored_session"
    by (rule t [THEN conjunct1])
  note u = t [THEN conjunct2, rule_format, OF set_changed]
  note u' = t [THEN conjunct2, rule_format, OF set_unchanged]
  have held: "obj_get example_runtime (flatData stored_session) ''a'' = Inr (JStr ''x'')"
    by (simp add: stored_session_def plain_def obj_get_def)
  have differ: "\<not> strict_eq example_runtime (JStr ''x'') (JStr ''y'')"
    by simp
  have same: "is_primitive (JStr ''x'')" "strict_eq example_runtime (JStr ''x'') (JStr ''x'')"
    by (simp_all add: is_primitive_def)
  from u [THEN conjunct1] held differ have second: "hasUnsavedChanges changed_session"
    by auto
  from u' [THEN conjunct1] held same have "\<not> hasUnsavedChanges stored_session"
    by auto
  have third: "\<not> hasUnsavedChanges saved_session"
    by (rule u [THEN conjunct2, rule_format, OF save_changed])
  from first second third held differ same use_stored set_changed set_unchanged save_changed
  show ?thesis by (intro conjI)
qed

text \<open>
  The claim as the specification states it fails: the row of path \<open>a\<close> holds the text
  \<open>x\<close>, and after \<open>use('o')\<close> and \<open>set('a', 'x')\<close> nothing is unsaved.
\<close>

theorem set_same_value_counterexample:
  "use example_runtime (JStr ''o'') new_session stored_world =
     (Inr (), stored_session, stored_world\<lparr>calls := [SelectObject ''o'']\<rparr>) \<and>
   set_path example_runtime (JStr ''a'') (JStr ''x'') stored_session = (Inr (), stored_session) \<and>
   \<not> hasUnsavedChanges stored_session"
  by (simp add: eval_defs)

text \<open>
  A row of the path \<open>__proto__\<close> that holds an array makes the array the prototype
  of \<open>flatData\<close>. \<open>set('0', 1)\<close> then reads the first element of the array as the
  old value, and nothing is unsaved after it.
\<close>

lemma use_proto_row:
  "use example_runtime (JStr ''o'') new_session proto_world =
     (Inr (), proto_session, proto_world\<lparr>calls := [SelectObject ''o'']\<rparr>)"
  by (simp add: eval_defs)

lemma set_inherited_value:
  "get example_runtime (JStr ''0'') proto_session = Inr (JNum (Fin 1)) \<and>
   set_path example_runtime (JStr ''0'') (JNum (Fin 1)) proto_session =
     (Inr (), proto_session\<lparr>flatData := \<lparr>props = [(''0'', JNum (Fin 1))],
                                            proto = JArr [JNum (Fin 1), JNum (Fin 2)]\<rparr>\<rparr>) \<and>
   \<not> hasUnsavedChanges proto_session"
  by (simp add: eval_defs)

section \<open>save\<close>

text \<open>
  The statements of \<open>save()\<close> are prepared without an error on every session whose
  \<open>flatData\<close> has the prototype \<open>Object.prototype\<close>.
\<close>

lemma upsert_statements_plain:
  "proto f = JObjectPrototype \<Longrightarrow> \<exists>st. upsert_statements rt i f ps = Inr st"
proof (induction ps)
  case Nil
  then show ?case by simp
next
  case (Cons p ps)
  then obtain st where st: "upsert_statements rt i f ps = Inr st" by blast
  have "\<exists>v. obj_get rt f p = Inr v"
    using Cons.prems
    by (cases "map_of (props f) p") (simp_all add: obj_get_def object_prototype_slot_def)
  then obtain v where v: "obj_get rt f p = Inr v" by blast
  show ?case
    by (simp add: v st split: prod.splits)
qed

lemma save_statements_plain:
  "proto (flatData s) = JObjectPrototype \<Longrightarrow> \<exists>st. save_statements rt i s = Inr st"
  using upsert_statements_plain [of "flatData s" rt i "dirtyPaths s"]
  by (auto simp: save_statements_def)

text \<open>
  C5, as amended. When the database rejects the batch of \<open>save()\<close> on a session with an
  active object, \<open>save()\<close> fails: the session is as it was before the call, no row has
  changed, and the error names the object id and ends with the message of the error the
  batch was rejected with.
\<close>

theorem save_failure_keeps_session:
  assumes "currentObjId s = Some i" and "i \<noteq> []"
    and "save_statements rt i s = Inr statements" and "statements \<noteq> []"
    and "rejects w (length (calls w)) (Batch statements) = Some c"
  shows "save rt s w =
           (Inl (SaveFailed i (cause_message c)), s, w\<lparr>calls := calls w @ [Batch statements]\<rparr>) \<and>
         error_message rt (SaveFailed i (cause_message c)) =
           ''Failed to save object '' @ [CHR 0x22] @ i @ [CHR 0x22] @ '' to D1: '' @ cause_message c"
  using assms by (simp add: save_def Let_def d1_call_def)

theorem save_failure_keeps_session_witness:
  "save_statements example_runtime ''o'' dirty_session = Inr [UpsertRow ''o'' ''q'' ''1'' ''number''] \<and>
   rejects rejecting_world (length (calls rejecting_world)) (Batch [UpsertRow ''o'' ''q'' ''1'' ''number'']) =
     Some \<lparr>cause_name = ''Error'', cause_message = ''D1_ERROR''\<rparr> \<and>
   save example_runtime dirty_session rejecting_world =
     (Inl (SaveFailed ''o'' ''D1_ERROR''), dirty_session,
      rejecting_world\<lparr>calls := [Batch [UpsertRow ''o'' ''q'' ''1'' ''number'']]\<rparr>)"
  using save_failure_keeps_session [of dirty_session "''o''" example_runtime
      "[UpsertRow ''o'' ''q'' ''1'' ''number'']" rejecting_world
      "\<lparr>cause_name = ''Error'', cause_message = ''D1_ERROR''\<rparr>"]
  by (simp add: eval_defs)

text \<open>
  Whatever makes \<open>save()\<close> fail on a session with an active object, the session and the
  rows are as they were before the call.
\<close>

lemma save_error_keeps_session:
  assumes "currentObjId s = Some i" and "i \<noteq> []" and "save rt s w = (Inl e, s', w')"
  shows "s' = s \<and> rows w' = rows w \<and> (\<exists>m. e = SaveFailed i m)"
  using assms
  by (auto simp: save_def Let_def d1_call_def split: if_splits option.splits prod.splits sum.splits)

text \<open>
  The claim as the specification states it fails at the original cause: the error of
  \<open>save()\<close> is built from the object id and the message of the cause, and two causes with
  one message and different names give the same error.
\<close>

theorem save_keeps_message_only_counterexample:
  "save example_runtime dirty_session rejecting_world =
     (Inl (SaveFailed ''o'' ''D1_ERROR''), dirty_session,
      rejecting_world\<lparr>calls := [Batch [UpsertRow ''o'' ''q'' ''1'' ''number'']]\<rparr>) \<and>
   save example_runtime dirty_session timeout_world =
     (Inl (SaveFailed ''o'' ''D1_ERROR''), dirty_session,
      timeout_world\<lparr>calls := [Batch [UpsertRow ''o'' ''q'' ''1'' ''number'']]\<rparr>) \<and>
   rejects rejecting_world 0 (Batch [UpsertRow ''o'' ''q'' ''1'' ''number'']) \<noteq>
     rejects timeout_world 0 (Batch [UpsertRow ''o'' ''q'' ''1'' ''number''])"
  by (simp add: eval_defs)

text \<open>
  C6, that a deleted path the snapshot does not hold gets no delete statement at the next
  \<open>save()\<close>. The test of \<open>save\<close> is \<open>path in this.originalFlatData\<close>, which is true
  of a name inherited from \<open>Object.prototype\<close>: after \<open>use('o')\<close> on an empty table,
  \<open>set('constructor', 1)\<close> and \<open>delete('constructor')\<close>, the batch of \<open>save()\<close> is one
  delete statement for \<open>constructor\<close>.
\<close>

theorem save_deletes_never_persisted_path:
  "set_path example_runtime (JStr ''constructor'') (JNum (Fin 1)) loaded_session =
     (Inr (), loaded_session\<lparr>flatData := plain [(''constructor'', JNum (Fin 1))],
                             dirtyPaths := [''constructor'']\<rparr>) \<and>
   delete example_runtime (JStr ''constructor'')
       (loaded_session\<lparr>flatData := plain [(''constructor'', JNum (Fin 1))],
                        dirtyPaths := [''constructor'']\<rparr>) =
     (Inr (), loaded_session\<lparr>deletedPaths := [''constructor'']\<rparr>) \<and>
   \<not> has_own (props (originalFlatData (loaded_session\<lparr>deletedPaths := [''constructor'']\<rparr>)))
         ''constructor'' \<and>
   save example_runtime (loaded_session\<lparr>deletedPaths := [''constructor'']\<rparr>)
       (empty_world\<lparr>calls := [SelectObject ''o'']\<rparr>) =
     (Inr (), loaded_session,
      empty_world\<lparr>calls := [SelectObject ''o'', Batch [DeleteRow ''o'' ''constructor'']]\<rparr>)"
  by (simp add: eval_defs)

text \<open>What the test does give: no delete statement for a path that \<open>in\<close> does not find.\<close>

lemma save_no_delete_for_absent:
  assumes "\<not> obj_in rt p (originalFlatData s)" and "save_statements rt i s = Inr stmts"
  shows "DeleteRow i p \<notin> set stmts"
proof -
  from assms(2) obtain ups where ups: "upsert_statements rt i (flatData s) (dirtyPaths s) = Inr ups"
    and st: "stmts = map (DeleteRow i)
                (filter (\<lambda>p. obj_in rt p (originalFlatData s)) (deletedPaths s)) @ ups"
    by (auto simp: save_statements_def split: sum.splits)
  have "DeleteRow i p \<notin> set ups"
    using upsert_statements_paths [OF ups] by auto
  then show ?thesis using assms(1) by (auto simp: st)
qed

text \<open>
  C7. On a session with an active object whose \<open>dirtyPaths\<close> and \<open>deletedPaths\<close> are
  empty, \<open>save()\<close> succeeds and the world is untouched: no call reaches the database.
\<close>

theorem save_clean_no_store_call:
  assumes "currentObjId s = Some i" and "i \<noteq> []"
    and "dirtyPaths s = []" and "deletedPaths s = []"
  shows "save rt s w = (Inr (), s\<lparr>originalFlatData := plain (props (flatData s))\<rparr>, w)"
  using assms by (simp add: save_def save_statements_def)

theorem save_clean_no_store_call_witness:
  "save example_runtime loaded_session empty_world = (Inr (), loaded_session, empty_world)"
  using save_clean_no_store_call [of loaded_session "''o''" example_runtime empty_world]
  by (simp add: loaded_session_def plain_def)

section \<open>Validation\<close>

text \<open>
  C8, that a malformed object id given to \<open>deleteObject\<close> raises the validation error
  before any call to the database and leaves the session as it is. The empty string is
  malformed: \<open>isValidObjId\<close> rejects it, and \<open>use('')\<close> and \<open>exists('')\<close> raise the
  validation error. \<open>deleteObject('')\<close> on the session that loaded \<open>o\<close> raises no error:
  \<open>objId || this.currentObjId\<close> puts the active object in the place of the empty string,
  the rows of \<open>o\<close> are deleted and the session is cleared.
\<close>

theorem deleteObject_empty_id_deletes_active_object:
  "\<not> isValidObjId (JStr []) \<and>
   use example_runtime (JStr []) new_session stored_world =
     (Inl (InvalidObjectId (JStr [])), new_session, stored_world) \<and>
   exists (JStr []) new_session stored_world =
     (Inl (InvalidObjectId (JStr [])), new_session, stored_world) \<and>
   use example_runtime (JStr ''o'') new_session stored_world =
     (Inr (), stored_session, stored_world\<lparr>calls := [SelectObject ''o'']\<rparr>) \<and>
   deleteObject (JStr []) stored_session (stored_world\<lparr>calls := [SelectObject ''o'']\<rparr>) =
     (Inr (), new_session,
      stored_world\<lparr>rows := [], calls := [SelectObject ''o'', DeleteObject ''o'']\<rparr>)"
  by (simp add: eval_defs)

text \<open>
  What the checks do give. A malformed object id given to \<open>use\<close> or \<open>exists\<close>, a
  malformed object id that is not falsy given to \<open>deleteObject\<close>, and a malformed path
  given to \<open>get\<close>, \<open>set\<close> or \<open>delete\<close> raise the validation error with the session and
  the world as they were: no call reached the database. So does a falsy id given to
  \<open>deleteObject\<close> on a session with no active object, with the error of the missing id.
\<close>

lemma validation_failure_before_io:
  "(\<not> isValidObjId objId \<longrightarrow>
      use rt objId s w = (Inl (InvalidObjectId objId), s, w) \<and>
      exists objId s w = (Inl (InvalidObjectId objId), s, w) \<and>
      (\<not> falsy objId \<longrightarrow> deleteObject objId s w = (Inl (InvalidObjectId objId), s, w)) \<and>
      (falsy objId \<and> no_object s \<longrightarrow>
         deleteObject objId s w = (Inl NoObjectIdSpecified, s, w))) \<and>
   (\<not> isValidPath path \<longrightarrow>
      get rt path s = Inl (InvalidPath path) \<and>
      set_path rt path v s = (Inl (InvalidPath path), s) \<and>
      delete rt path s = (Inl (InvalidPath path), s))"
  by (auto simp: use_def exists_def deleteObject_def get_def set_path_def delete_def no_object_def)

lemma validation_failure_examples:
  "use example_runtime (JStr '' o'') stored_session stored_world =
     (Inl (InvalidObjectId (JStr '' o'')), stored_session, stored_world) \<and>
   exists (JStr '' o'') stored_session stored_world =
     (Inl (InvalidObjectId (JStr '' o'')), stored_session, stored_world) \<and>
   deleteObject (JStr '' o'') stored_session stored_world =
     (Inl (InvalidObjectId (JStr '' o'')), stored_session, stored_world) \<and>
   deleteObject JNull new_session stored_world =
     (Inl NoObjectIdSpecified, new_session, stored_world) \<and>
   get example_runtime (JStr ''a..b'') stored_session = Inl (InvalidPath (JStr ''a..b'')) \<and>
   set_path example_runtime (JStr ''a..b'') JNull stored_session =
     (Inl (InvalidPath (JStr ''a..b'')), stored_session) \<and>
   delete example_runtime (JStr ''a..b'') stored_session =
     (Inl (InvalidPath (JStr ''a..b'')), stored_session)"
  using validation_failure_before_io
          [of "JStr '' o''" example_runtime stored_session stored_world "JStr ''a..b''" JNull]
        validation_failure_before_io
          [of JNull example_runtime new_session stored_world "JStr ''a..b''" JNull]
  by (simp add: trim_def is_whitespace_def startsWith_def endsWith_def new_session_def
      no_object_def)

section \<open>The round trip through flatten and unflatten\<close>

subsection \<open>Deep equality\<close>

text \<open>
  Deep equality of two values: arrays element by element, in order; objects by their
  key sets and the values under each key, whatever the order of the keys; everything
  else by the value.
\<close>

lemma size_entry: "e \<in> set es \<Longrightarrow> size (snd e) < Suc (size_list (size_prod (\<lambda>_. 0) size) es)"
  by (induction es) (auto simp: less_Suc_eq)

lemma size_elem: "x \<in> set xs \<Longrightarrow> size x < Suc (size_list size xs)"
  by (induction xs) (auto simp: less_Suc_eq)

function deep_eq :: "jsval \<Rightarrow> jsval \<Rightarrow> bool" where
  "deep_eq (JArr xs) b = (case b of JArr ys \<Rightarrow> list_all2 deep_eq xs ys | _ \<Rightarrow> False)"
| "deep_eq (JObj xs) b =
     (case b of
        JObj ys \<Rightarrow>
          set (map fst xs) = set (map fst ys) \<and>
          (\<forall>e \<in> set xs. case map_of ys (fst e) of Some y \<Rightarrow> deep_eq (snd e) y | None \<Rightarrow> False)
      | _ \<Rightarrow> False)"
| "deep_eq JUndefined b = (b = JUndefined)"
| "deep_eq JNull b = (b = JNull)"
| "deep_eq (JBool x) b = (b = JBool x)"
| "deep_eq (JNum x) b = (b = JNum x)"
| "deep_eq (JStr x) b = (b = JStr x)"
| "deep_eq (JDate x) b = (b = JDate x)"
| "deep_eq (JFunction x) b = (b = JFunction x)"
| "deep_eq JObjectPrototype b = (b = JObjectPrototype)"
  by pat_completeness auto
termination
  by (relation "measure (\<lambda>(a, b). size a)") (auto simp: size_entry size_elem)

text \<open>
  The values the round trip keeps. A key is not empty, has no dot and is not
  \<open>__proto__\<close>. A string is one that \<open>parseValue\<close> returns as it is: not empty, not
  \<open>{}\<close>, and when it is written in brackets or braces \<open>JSON.parse\<close> rejects it. An
  array is one whose JSON text is written in brackets and parses to an array deep-equal
  to it. \<open>undefined\<close>, dates and functions are not kept.
\<close>

definition key_ok :: "string \<Rightarrow> bool" where
  "key_ok k = (k \<noteq> [] \<and> CHR ''.'' \<notin> set k \<and> k \<noteq> ''__proto__'')"

definition json_like :: "string \<Rightarrow> bool" where
  "json_like s = ((startsWith s ''['' \<and> endsWith s '']'') \<or> (startsWith s ''{'' \<and> endsWith s ''}''))"

function round_trip_safe :: "runtime \<Rightarrow> jsval \<Rightarrow> bool" where
  "round_trip_safe rt JNull = True"
| "round_trip_safe rt (JBool b) = True"
| "round_trip_safe rt (JNum n) = True"
| "round_trip_safe rt (JStr s) = (s \<noteq> [] \<and> s \<noteq> ''{}'' \<and> (json_like s \<longrightarrow> JSON_parse rt s = None))"
| "round_trip_safe rt (JArr xs) =
     (startsWith (JSON_stringify rt (JArr xs)) ''['' \<and> endsWith (JSON_stringify rt (JArr xs)) '']'' \<and>
      (case JSON_parse rt (JSON_stringify rt (JArr xs)) of
         Some v \<Rightarrow> deep_eq v (JArr xs) | None \<Rightarrow> False))"
| "round_trip_safe rt (JObj es) =
     (distinct (map fst es) \<and> (\<forall>e \<in> set es. key_ok (fst e) \<and> round_trip_safe rt (snd e)))"
| "round_trip_safe rt JUndefined = False"
| "round_trip_safe rt (JDate t) = False"
| "round_trip_safe rt (JFunction f) = False"
| "round_trip_safe rt JObjectPrototype = False"
  by pat_completeness auto
termination
  by (relation "measure (\<lambda>(rt, a). size a)") (auto simp: size_entry)

subsection \<open>Assignments to a plain object\<close>

lemma has_own_map_of: "has_own d k \<longleftrightarrow> map_of d k \<noteq> None"
  by (simp add: has_own_def map_of_eq_None_iff)

lemma map_of_replace_own:
  "map_of (replace_own k v d) = (if map_of d k = None then map_of d else (map_of d)(k \<mapsto> v))"
  by (induction d) (auto simp: fun_eq_iff)

lemma keys_replace_own: "map fst (replace_own k v d) = map fst d"
  by (induction d) auto

lemma map_of_insert_index:
  "map_of d k = None \<Longrightarrow> map_of (insert_index n k v d) = (map_of d)(k \<mapsto> v)"
  by (induction d) (auto simp: fun_eq_iff split: option.splits if_splits)

lemma keys_insert_index: "fst ` set (insert_index n k v d) = insert k (fst ` set d)"
proof (induction d)
  case Nil
  then show ?case by simp
next
  case (Cons e d)
  obtain a b where e: "e = (a, b)" by (cases e)
  show ?case
    using Cons.IH by (cases "array_index a") (auto simp: e)
qed

lemma distinct_insert_index:
  "k \<notin> fst ` set d \<Longrightarrow> distinct (map fst d) \<Longrightarrow> distinct (map fst (insert_index n k v d))"
  by (induction d) (auto simp: keys_insert_index split: option.splits)

lemma map_of_add_own: "map_of d k = None \<Longrightarrow> map_of (add_own k v d) = (map_of d)(k \<mapsto> v)"
  by (auto simp: add_own_def map_of_insert_index fun_eq_iff map_add_def split: option.splits)

lemma map_of_own_set: "map_of (own_set k v d) = (map_of d)(k \<mapsto> v)"
  by (simp add: own_set_def map_of_replace_own map_of_add_own has_own_map_of)

lemma keys_own_set: "fst ` set (own_set k v d) = insert k (fst ` set d)"
proof -
  have "fst ` set (replace_own k v d) = fst ` set d"
    using keys_replace_own [of k v d] by (metis set_map)
  then show ?thesis
    by (auto simp: own_set_def add_own_def keys_insert_index has_own_def split: option.splits)
qed

lemma distinct_own_set: "distinct (map fst d) \<Longrightarrow> distinct (map fst (own_set k v d))"
  by (auto simp: own_set_def keys_replace_own add_own_def distinct_insert_index has_own_def
           split: option.splits)

text \<open>
  On an object with the prototype \<open>Object.prototype\<close>, an assignment to a name other
  than \<open>__proto__\<close> writes or creates the own property, and a read gives the own
  property, else the inherited function, else \<open>undefined\<close>. No assignment to such an
  object and no read of it throws.
\<close>

lemma obj_set_plain:
  "k \<noteq> ''__proto__'' \<Longrightarrow> obj_set rt k v (plain d) = Inr (plain (own_set k v d))"
  by (simp add: obj_set_def plain_def object_prototype_slot_def)

lemma obj_set_plain_returns: "\<exists>r. obj_set rt k v (plain d) = Inr r"
  by (simp add: obj_set_def plain_def object_prototype_slot_def)

lemma obj_get_plain_returns: "\<exists>x. obj_get rt (plain d) k = Inr x"
  by (simp add: obj_get_def plain_def object_prototype_slot_def split: option.splits)

lemma assign_plain: "k \<noteq> ''__proto__'' \<Longrightarrow> assign rt k v d = Some (own_set k v d)"
  by (simp add: assign_def obj_set_plain) (simp add: plain_def)

lemma obj_get_plain:
  "k \<noteq> ''__proto__'' \<Longrightarrow>
   obj_get rt (plain d) k =
     Inr (case map_of d k of
            Some v \<Rightarrow> v
          | None \<Rightarrow> if k \<in> set object_prototype_names then JFunction k else JUndefined)"
  by (simp add: obj_get_def plain_def object_prototype_slot_def split: option.splits)

subsection \<open>unflatten on a list of split paths\<close>

text \<open>
  \<open>unflatten\<close> splits each path and decodes each value, then assigns. \<open>build\<close> is the
  loop on the split paths and decoded values; \<open>tails k L\<close> are the items of \<open>L\<close> under the
  first segment \<open>k\<close>, without it.
\<close>

type_synonym item = "string list \<times> jsval"

fun build :: "runtime \<Rightarrow> item list \<Rightarrow> dict \<Rightarrow> dict option" where
  "build rt [] d = Some d"
| "build rt ((ks, y) # L) d = (case unflatten_path rt ks y d of None \<Rightarrow> None | Some d' \<Rightarrow> build rt L d')"

lemma build_append: "build rt (A @ B) d = (case build rt A d of None \<Rightarrow> None | Some d' \<Rightarrow> build rt B d')"
  by (induction A arbitrary: d) (auto split: option.splits)

lemma unflatten_entries_build:
  "unflatten_entries rt fl d = build rt (map (\<lambda>(p, x). (split_dot p, parseValue rt x)) fl) d"
  by (induction fl arbitrary: d) (auto split: option.splits)

definition tails :: "string \<Rightarrow> item list \<Rightarrow> item list" where
  "tails k L = map (\<lambda>(ks, y). (tl ks, y)) (filter (\<lambda>(ks, y). ks \<noteq> [] \<and> hd ks = k) L)"

lemma tails_append: "tails k (A @ B) = tails k A @ tails k B"
  by (simp add: tails_def)

lemma tails_single: "tails k [(k' # r, y)] = (if k' = k then [(r, y)] else [])"
  by (simp add: tails_def)

lemma in_tails: "(r, y) \<in> set (tails k L) \<longleftrightarrow> (k # r, y) \<in> set L"
  by (force simp: tails_def image_iff)

lemma unflatten_path_step:
  assumes "r \<noteq> []" and "k \<noteq> ''__proto__''"
    and "map_of d k = None \<and> sub = [] \<or> map_of d k = Some (JObj sub)"
  shows "unflatten_path rt (k # r) y d =
         map_option (\<lambda>s. own_set k (JObj s) d) (unflatten_path rt r y sub)"
proof -
  obtain a b where r: "r = a # b" using assms(1) by (cases r) auto
  have asg: "assign rt k (JObj s) d = Some (own_set k (JObj s) d)" for s
    using assms(2) by (rule assign_plain)
  from assms(3) show ?thesis
  proof
    assume n: "map_of d k = None \<and> sub = []"
    define held where
      "held = (if k \<in> set object_prototype_names then JFunction k else JUndefined)"
    have g: "obj_get rt (plain d) k = Inr held"
      using n assms(2) by (simp add: obj_get_plain held_def)
    have "falsy held \<or> typeof held \<noteq> ''object''" by (simp add: held_def)
    then show ?thesis
      using n by (cases "unflatten_path rt (a # b) y []") (simp_all add: r g asg)
  next
    assume "map_of d k = Some (JObj sub)"
    then have g: "obj_get rt (plain d) k = Inr (JObj sub)"
      using assms(2) by (simp add: obj_get_plain)
    show ?thesis
      by (cases "unflatten_path rt (a # b) y sub") (simp_all add: r g asg)
  qed
qed

text \<open>
  A list of items is \<open>grouped\<close> when no path is empty or starts with \<open>__proto__\<close>, no
  path occurs twice, and under each first segment either every path ends there or none
  does and the rest of the paths builds an object. On such a list the loop succeeds, in
  whatever order the items come: the result has the first segments as its keys, holds
  the value of a path that ends at the key, and the object built from the rest of the
  paths otherwise.
\<close>

definition grouped :: "runtime \<Rightarrow> item list \<Rightarrow> bool" where
  "grouped rt L \<longleftrightarrow>
     (\<forall>i \<in> set L. fst i \<noteq> [] \<and> hd (fst i) \<noteq> ''__proto__'') \<and> distinct (map fst L) \<and>
     (\<forall>k. (\<forall>t \<in> set (tails k L). fst t = []) \<or>
          ((\<forall>t \<in> set (tails k L). fst t \<noteq> []) \<and> build rt (tails k L) [] \<noteq> None))"

definition built :: "runtime \<Rightarrow> item list \<Rightarrow> dict \<Rightarrow> bool" where
  "built rt L d \<longleftrightarrow>
     distinct (map fst d) \<and> set (map fst d) = (hd \<circ> fst) ` set L \<and>
     (\<forall>k y. ([k], y) \<in> set L \<longrightarrow> map_of d k = Some y) \<and>
     (\<forall>k r y. (k # r, y) \<in> set L \<and> r \<noteq> [] \<longrightarrow>
        (\<exists>sub. map_of d k = Some (JObj sub) \<and> build rt (tails k L) [] = Some sub))"

lemma grouped_butlast: assumes "grouped rt (L @ [i])" shows "grouped rt L"
proof -
  have g: "(\<forall>t \<in> set (tails k L). fst t = []) \<or>
          ((\<forall>t \<in> set (tails k L). fst t \<noteq> []) \<and> build rt (tails k L) [] \<noteq> None)" for k
  proof -
    from assms have "(\<forall>t \<in> set (tails k (L @ [i])). fst t = []) \<or>
          ((\<forall>t \<in> set (tails k (L @ [i])). fst t \<noteq> []) \<and> build rt (tails k (L @ [i])) [] \<noteq> None)"
      unfolding grouped_def by blast
    then show ?thesis
      by (auto simp: tails_append build_append split: option.splits)
  qed
  from assms have "(\<forall>i \<in> set L. fst i \<noteq> [] \<and> hd (fst i) \<noteq> ''__proto__'') \<and> distinct (map fst L)"
    unfolding grouped_def by auto
  with g show ?thesis unfolding grouped_def by blast
qed

lemma built_Nil: "built rt [] []"
  by (simp add: built_def)

lemma build_grouped: "grouped rt L \<Longrightarrow> \<exists>d. build rt L [] = Some d \<and> built rt L d"
proof (induction L rule: rev_induct)
  case Nil
  then show ?case by (simp add: built_Nil)
next
  case (snoc i L)
  have gL: "grouped rt L" using snoc.prems by (rule grouped_butlast)
  then obtain d where d: "build rt L [] = Some d" and bd: "built rt L d"
    using snoc.IH by blast
  obtain ks y where i: "i = (ks, y)" by (cases i)
  from snoc.prems have "ks \<noteq> []" and "hd ks \<noteq> ''__proto__''"
    by (auto simp: grouped_def i)
  then obtain k r where ks: "ks = k # r" and k: "k \<noteq> ''__proto__''"
    by (cases ks) auto
  have dist: "distinct (map fst (L @ [i]))" using snoc.prems by (simp add: grouped_def)
  have fresh: "(ks, y') \<notin> set L" for y'
    using dist by (force simp: i)
  have grp: "(\<forall>t \<in> set (tails k' (L @ [i])). fst t = []) \<or>
          ((\<forall>t \<in> set (tails k' (L @ [i])). fst t \<noteq> []) \<and> build rt (tails k' (L @ [i])) [] \<noteq> None)" for k'
    using snoc.prems unfolding grouped_def by blast
  have tails_other: "tails k' (L @ [i]) = tails k' L" if "k' \<noteq> k" for k'
    using that by (simp add: tails_append tails_single i ks)
  have tails_k: "tails k (L @ [i]) = tails k L @ [(r, y)]"
    by (simp add: tails_append tails_single i ks)
  have dd: "distinct (map fst d)" and keys: "fst ` set d = (hd \<circ> fst) ` set L"
    and leaf: "\<And>k' y'. ([k'], y') \<in> set L \<Longrightarrow> map_of d k' = Some y'"
    and node: "\<And>k' r' y'. (k' # r', y') \<in> set L \<Longrightarrow> r' \<noteq> [] \<Longrightarrow>
                 \<exists>sub. map_of d k' = Some (JObj sub) \<and> build rt (tails k' L) [] = Some sub"
    using bd unfolding built_def by (simp, simp, blast, blast)
  show ?case
  proof (cases "r = []")
    case True
    let ?d = "own_set k y d"
    have step: "build rt (L @ [i]) [] = Some ?d"
      by (simp add: build_append d i ks True assign_plain [OF k])
    have all_leaf: "\<forall>t \<in> set (tails k (L @ [i])). fst t = []"
      using grp [of k] by (auto simp: tails_k True)
    have no_node: "r' = []" if "(k # r', y') \<in> set L" for r' y'
      using all_leaf that by (auto simp: tails_k in_tails [symmetric])
    have "built rt (L @ [i]) ?d"
      unfolding built_def
    proof (intro conjI allI impI)
      show "distinct (map fst ?d)" using dd by (rule distinct_own_set)
      show "set (map fst ?d) = (hd \<circ> fst) ` set (L @ [i])"
        using keys by (simp add: keys_own_set i ks)
      show "map_of ?d k' = Some y'" if "([k'], y') \<in> set (L @ [i])" for k' y'
      proof (cases "k' = k")
        case True
        with that fresh [of y'] \<open>r = []\<close> have "y' = y" by (auto simp: i ks)
        then show ?thesis by (simp add: map_of_own_set True)
      next
        case False
        with that have "([k'], y') \<in> set L" by (auto simp: i ks)
        then show ?thesis using leaf False by (simp add: map_of_own_set)
      qed
      show "\<exists>sub. map_of ?d k' = Some (JObj sub) \<and> build rt (tails k' (L @ [i])) [] = Some sub"
        if "(k' # r', y') \<in> set (L @ [i]) \<and> r' \<noteq> []" for k' r' y'
      proof -
        from that True have inL: "(k' # r', y') \<in> set L" and r': "r' \<noteq> []"
          by (auto simp: i ks)
        have "k' \<noteq> k" using no_node inL r' by blast
        then show ?thesis
          using node [OF inL r'] by (simp add: map_of_own_set tails_other)
      qed
    qed
    with step show ?thesis by blast
  next
    case False
    have all_node: "\<forall>t \<in> set (tails k (L @ [i])). fst t \<noteq> []"
      and ok: "build rt (tails k (L @ [i])) [] \<noteq> None"
      using grp [of k] False by (auto simp: tails_k)
    have no_leaf: "([k], y') \<notin> set L" for y'
      using all_node by (auto simp: tails_k in_tails [symmetric])
    obtain sub0 where sub0: "map_of d k = None \<and> sub0 = [] \<or> map_of d k = Some (JObj sub0)"
      and b0: "build rt (tails k L) [] = Some sub0"
    proof (cases "k \<in> (hd \<circ> fst) ` set L")
      case True
      then obtain ks' y' where in': "(ks', y') \<in> set L" and "hd ks' = k" by force
      moreover have "ks' \<noteq> []" using gL in' by (force simp: grouped_def)
      ultimately obtain r' where ks': "ks' = k # r'" by (cases ks') auto
      have "r' \<noteq> []" using no_leaf [of y'] in' ks' by auto
      then show ?thesis using node [of k r' y'] in' ks' that by auto
    next
      case False
      then have "map_of d k = None"
        using keys by (simp add: map_of_eq_None_iff)
      moreover have "tails k L = []"
        using False by (force simp: tails_def filter_empty_conv)
      ultimately show ?thesis using that by simp
    qed
    from ok obtain sub where sub: "unflatten_path rt r y sub0 = Some sub"
      by (auto simp: tails_k build_append b0 split: option.splits)
    let ?d = "own_set k (JObj sub) d"
    have "unflatten_path rt ks y d = Some ?d"
      using unflatten_path_step [OF False k sub0, of rt y] sub by (simp add: ks)
    then have step: "build rt (L @ [i]) [] = Some ?d"
      by (simp add: build_append d i)
    have bsub: "build rt (tails k (L @ [i])) [] = Some sub"
      by (simp add: tails_k build_append b0 sub)
    have "built rt (L @ [i]) ?d"
      unfolding built_def
    proof (intro conjI allI impI)
      show "distinct (map fst ?d)" using dd by (rule distinct_own_set)
      show "set (map fst ?d) = (hd \<circ> fst) ` set (L @ [i])"
        using keys by (simp add: keys_own_set i ks)
      show "map_of ?d k' = Some y'" if "([k'], y') \<in> set (L @ [i])" for k' y'
      proof -
        from that False have inL: "([k'], y') \<in> set L" by (auto simp: i ks)
        then have "k' \<noteq> k" using no_leaf by blast
        then show ?thesis using leaf [OF inL] by (simp add: map_of_own_set)
      qed
      show "\<exists>sub. map_of ?d k' = Some (JObj sub) \<and> build rt (tails k' (L @ [i])) [] = Some sub"
        if "(k' # r', y') \<in> set (L @ [i]) \<and> r' \<noteq> []" for k' r' y'
      proof (cases "k' = k")
        case True
        then show ?thesis using bsub by (simp add: map_of_own_set)
      next
        case False
        with that have inL: "(k' # r', y') \<in> set L" and r': "r' \<noteq> []"
          by (auto simp: i ks)
        show ?thesis
          using node [OF inL r'] False by (simp add: map_of_own_set tails_other)
      qed
    qed
    with step show ?thesis by blast
  qed
qed

subsection \<open>The leaves of an object\<close>

text \<open>
  \<open>flatten\<close> recurses into a value that is an object with a key, and stores every other
  value under its path: \<open>stored rt x\<close> is what it stores for \<open>x\<close>. \<open>leaves rt es\<close> are
  the paths of the object with the entries \<open>es\<close>, as lists of keys, with the values
  stored.
\<close>

fun is_subtree :: "jsval \<Rightarrow> bool" where
  "is_subtree (JObj es) = (es \<noteq> [])"
| "is_subtree v = False"

definition stored :: "runtime \<Rightarrow> jsval \<Rightarrow> jsval" where
  "stored rt x =
     (if x = JNull \<or> x = JUndefined then JStr []
      else if isArray x then JStr (JSON_stringify rt x)
      else if typeof x = ''object'' then (case date_text x of Some t \<Rightarrow> JStr t | None \<Rightarrow> JStr ''{}'')
      else x)"

function leaves :: "runtime \<Rightarrow> dict \<Rightarrow> item list" where
  "leaves rt [] = []"
| "leaves rt ((k, x) # es) =
     (if is_subtree x then map (\<lambda>(ks, y). (k # ks, y)) (leaves rt (own_entries x))
      else [([k], stored rt x)]) @ leaves rt es"
  by pat_completeness auto
termination
proof (relation "measure (\<lambda>(rt :: runtime, es). entries_size es)")
  show "wf (measure (\<lambda>(rt :: runtime, es). entries_size es))" by simp
next
  fix rt :: runtime and k :: string and x :: jsval and es :: dict
  assume "is_subtree x"
  then have "own_entries x \<noteq> []" by (cases x) auto
  then show "((rt, own_entries x), rt, (k, x) # es) \<in> measure (\<lambda>(rt :: runtime, es). entries_size es)"
    using entries_size_own_entries [of x] by (simp add: entries_size_Cons)
next
  fix rt :: runtime and k :: string and x :: jsval and es :: dict
  show "((rt, es), rt, (k, x) # es) \<in> measure (\<lambda>(rt :: runtime, es). entries_size es)"
    by (simp add: entries_size_Cons)
qed

definition decode :: "runtime \<Rightarrow> item \<Rightarrow> item" where
  "decode rt i = (fst i, parseValue rt (snd i))"

lemma is_subtree_iff: "is_subtree x \<longleftrightarrow> x = JObj (own_entries x) \<and> own_entries x \<noteq> []"
  by (cases x) auto

lemma leaves_nonempty_path: "([], y) \<notin> set (leaves rt es)"
  by (induction rt es rule: leaves.induct) auto

lemma leaves_not_Nil: "es \<noteq> [] \<Longrightarrow> leaves rt es \<noteq> []"
proof (induction rt es rule: leaves.induct)
  case (1 rt)
  then show ?case by simp
next
  case (2 rt k x es)
  show ?case
  proof (cases "is_subtree x")
    case True
    then have "own_entries x \<noteq> []" by (simp add: is_subtree_iff)
    with 2(1) True show ?thesis by simp
  next
    case False
    then show ?thesis by simp
  qed
qed

lemma in_leaves:
  "(k # r, y) \<in> set (leaves rt es) \<longleftrightarrow>
     (\<exists>x. (k, x) \<in> set es \<and>
          (if is_subtree x then (r, y) \<in> set (leaves rt (own_entries x))
           else r = [] \<and> y = stored rt x))"
proof (induction es)
  case Nil
  then show ?case by simp
next
  case (Cons e es)
  obtain k' x' where e: "e = (k', x')" by (cases e)
  have pre: "(k # r, y) \<in> set (map (\<lambda>(ks, y). (k' # ks, y)) T) \<longleftrightarrow> k = k' \<and> (r, y) \<in> set T"
    for T :: "item list"
    by force
  show ?case
    unfolding e using Cons.IH
    by (cases "is_subtree x'") (auto simp: pre simp del: set_map)
qed

lemma leaf_round_trip:
  assumes "round_trip_safe rt x" and "\<not> is_subtree x"
  shows "deep_eq (parseValue rt (stored rt x)) x"
proof (cases x)
  case (JArr xs)
  let ?t = "JSON_stringify rt (JArr xs)"
  from assms(1) JArr have b: "startsWith ?t ''[''" "endsWith ?t '']''"
    and p: "case JSON_parse rt ?t of Some v \<Rightarrow> deep_eq v (JArr xs) | None \<Rightarrow> False"
    by simp_all
  from b(1) have "?t \<noteq> []" "?t \<noteq> ''{}''" by (auto simp: startsWith_def)
  with b p show ?thesis
    by (auto simp: JArr stored_def split: option.splits)
next
  case (JObj es)
  with assms(2) have "es = []" by simp
  then show ?thesis by (simp add: JObj stored_def)
next
  case (JStr s)
  with assms(1) show ?thesis by (auto simp: stored_def json_like_def)
qed (use assms in \<open>simp_all add: stored_def\<close>)

lemma distinct_tails: "distinct (map fst L) \<Longrightarrow> distinct (map fst (tails k L))"
proof (induction L)
  case Nil
  then show ?case by (simp add: tails_def)
next
  case (Cons i L)
  obtain ks y where i: "i = (ks, y)" by (cases i)
  have IH: "distinct (map fst (tails k L))" using Cons by simp
  show ?case
  proof (cases "ks \<noteq> [] \<and> hd ks = k")
    case True
    then obtain r where ks: "ks = k # r" by (cases ks) auto
    have "r \<notin> fst ` set (tails k L)"
    proof
      assume "r \<in> fst ` set (tails k L)"
      then obtain y' where "(r, y') \<in> set (tails k L)" by force
      then have "(ks, y') \<in> set L" by (simp add: in_tails ks)
      then have "ks \<in> fst ` set L" by force
      with Cons.prems show False by (simp add: i)
    qed
    moreover have "tails k (i # L) = (r, y) # tails k L"
      by (simp add: tails_def i ks)
    ultimately show ?thesis using IH by simp
  next
    case False
    then have "tails k (i # L) = tails k L" by (auto simp: tails_def i)
    then show ?thesis using IH by simp
  qed
qed

lemma deep_eq_JObj:
  "deep_eq (JObj d) (JObj es) \<longleftrightarrow>
     fst ` set d = fst ` set es \<and>
     (\<forall>e \<in> set d. case map_of es (fst e) of Some x \<Rightarrow> deep_eq (snd e) x | None \<Rightarrow> False)"
  by simp

lemma build_leaves:
  assumes "round_trip_safe rt (JObj es)" and "distinct (map fst L)"
    and "set L = decode rt ` set (leaves rt es)"
  shows "\<exists>d. build rt L [] = Some d \<and> deep_eq (JObj d) (JObj es)"
  using assms
proof (induction "entries_size es" arbitrary: es L rule: less_induct)
  case less
  have des: "distinct (map fst es)"
    and ent: "\<And>k x. (k, x) \<in> set es \<Longrightarrow> key_ok k \<and> round_trip_safe rt x"
    using less.prems(1) by auto
  have uniq: "x = x'" if "(k, x) \<in> set es" "(k, x') \<in> set es" for k x x'
    using des that by (metis map_of_is_SomeI option.inject)
  have inL0: "(ks, y) \<in> set L \<longleftrightarrow> (\<exists>y0. (ks, y0) \<in> set (leaves rt es) \<and> y = parseValue rt y0)"
    for ks y
    unfolding less.prems(3) decode_def by force
  have inL: "(k # r, y) \<in> set L \<longleftrightarrow>
      (\<exists>x y0. (k, x) \<in> set es \<and> y = parseValue rt y0 \<and>
         (if is_subtree x then (r, y0) \<in> set (leaves rt (own_entries x))
          else r = [] \<and> y0 = stored rt x))" for k r y
  proof
    assume "(k # r, y) \<in> set L"
    then obtain y0 where "(k # r, y0) \<in> set (leaves rt es)" and y: "y = parseValue rt y0"
      unfolding inL0 by blast
    then obtain x where "(k, x) \<in> set es"
      "if is_subtree x then (r, y0) \<in> set (leaves rt (own_entries x)) else r = [] \<and> y0 = stored rt x"
      unfolding in_leaves by blast
    with y show "\<exists>x y0. (k, x) \<in> set es \<and> y = parseValue rt y0 \<and>
         (if is_subtree x then (r, y0) \<in> set (leaves rt (own_entries x))
          else r = [] \<and> y0 = stored rt x)" by blast
  next
    assume "\<exists>x y0. (k, x) \<in> set es \<and> y = parseValue rt y0 \<and>
         (if is_subtree x then (r, y0) \<in> set (leaves rt (own_entries x))
          else r = [] \<and> y0 = stored rt x)"
    then obtain x y0 where "(k, x) \<in> set es" and y: "y = parseValue rt y0"
      and "if is_subtree x then (r, y0) \<in> set (leaves rt (own_entries x))
          else r = [] \<and> y0 = stored rt x" by blast
    then have "(k # r, y0) \<in> set (leaves rt es)" unfolding in_leaves by blast
    with y show "(k # r, y) \<in> set L" unfolding inL0 by blast
  qed
  have noNil: "([], y) \<notin> set L" for y
    unfolding inL0 using leaves_nonempty_path by blast
  have t_sub: "set (tails k L) = decode rt ` set (leaves rt (own_entries x))"
    if kx: "(k, x) \<in> set es" and st: "is_subtree x" for k x
  proof (intro equalityI subsetI)
    fix t assume t: "t \<in> set (tails k L)"
    obtain r y where ry: "t = (r, y)" by (cases t)
    with t have "(k # r, y) \<in> set L" by (simp add: in_tails)
    then obtain x' y0 where "(k, x') \<in> set es" and y: "y = parseValue rt y0"
      and c: "if is_subtree x' then (r, y0) \<in> set (leaves rt (own_entries x'))
              else r = [] \<and> y0 = stored rt x'"
      unfolding inL by blast
    then have "x' = x" using uniq kx by blast
    with c st have "(r, y0) \<in> set (leaves rt (own_entries x))" by simp
    then have "decode rt (r, y0) \<in> decode rt ` set (leaves rt (own_entries x))" by (rule imageI)
    then show "t \<in> decode rt ` set (leaves rt (own_entries x))"
      by (simp add: ry y decode_def)
  next
    fix t assume "t \<in> decode rt ` set (leaves rt (own_entries x))"
    then obtain r y0 where t: "t = (r, parseValue rt y0)"
      and "(r, y0) \<in> set (leaves rt (own_entries x))"
      by (auto simp: decode_def)
    then have "(k # r, parseValue rt y0) \<in> set L"
      unfolding inL using kx st by auto
    then show "t \<in> set (tails k L)" by (simp add: t in_tails)
  qed
  have t_leaf: "set (tails k L) = {([], parseValue rt (stored rt x))}"
    if kx: "(k, x) \<in> set es" and st: "\<not> is_subtree x" for k x
  proof (intro equalityI subsetI)
    fix t assume t: "t \<in> set (tails k L)"
    obtain r y where ry: "t = (r, y)" by (cases t)
    with t have "(k # r, y) \<in> set L" by (simp add: in_tails)
    then obtain x' y0 where "(k, x') \<in> set es" and y: "y = parseValue rt y0"
      and c: "if is_subtree x' then (r, y0) \<in> set (leaves rt (own_entries x'))
              else r = [] \<and> y0 = stored rt x'"
      unfolding inL by blast
    then have "x' = x" using uniq kx by blast
    with c st have "r = []" "y0 = stored rt x" by simp_all
    then show "t \<in> {([], parseValue rt (stored rt x))}" by (simp add: ry y)
  next
    fix t :: item assume "t \<in> {([], parseValue rt (stored rt x))}"
    then have t: "t = ([], parseValue rt (stored rt x))" by simp
    have "([k], parseValue rt (stored rt x)) \<in> set L"
      unfolding inL using kx st by auto
    then show "t \<in> set (tails k L)" by (simp add: t in_tails)
  qed
  have t_none: "set (tails k L) = {}" if "k \<notin> fst ` set es" for k
  proof -
    have "(r, y) \<notin> set (tails k L)" for r y
    proof
      assume "(r, y) \<in> set (tails k L)"
      then have "(k # r, y) \<in> set L" by (simp add: in_tails)
      then obtain x where "(k, x) \<in> set es" unfolding inL by blast
      then have "k \<in> fst ` set es" by force
      with that show False by simp
    qed
    then show ?thesis by (cases "tails k L") auto
  qed
  have sub_ok: "\<exists>d. build rt (tails k L) [] = Some d \<and> deep_eq (JObj d) x"
    if "(k, x) \<in> set es" "is_subtree x" for k x
  proof -
    have x: "x = JObj (own_entries x)" and ne: "own_entries x \<noteq> []"
      using that(2) by (simp_all add: is_subtree_iff)
    have "entries_size (own_entries x) < entries_size es"
    proof -
      have "entries_size (own_entries x) < size x" using ne by (rule entries_size_own_entries)
      also have "size x < entries_size es"
        using that(1) by (induction es) (auto simp: entries_size_def)
      finally show ?thesis .
    qed
    moreover have "round_trip_safe rt (JObj (own_entries x))"
      using ent [OF that(1)] x by simp
    ultimately have "\<exists>d. build rt (tails k L) [] = Some d \<and> deep_eq (JObj d) (JObj (own_entries x))"
      using less.hyps distinct_tails [OF less.prems(2)] t_sub [OF that] by blast
    then show ?thesis using x by simp
  qed
  have "grouped rt L"
    unfolding grouped_def
  proof (intro conjI allI ballI)
    fix i assume i: "i \<in> set L"
    obtain ks y where iy: "i = (ks, y)" by (cases i)
    with i noNil have "ks \<noteq> []" by auto
    then obtain k r where ks: "ks = k # r" by (cases ks) auto
    with i iy inL obtain x where "(k, x) \<in> set es" by blast
    then have "key_ok k" using ent by blast
    then show "fst i \<noteq> []" and "hd (fst i) \<noteq> ''__proto__''"
      by (simp_all add: iy ks key_ok_def)
  next
    show "distinct (map fst L)" by (rule less.prems(2))
  next
    fix k
    show "(\<forall>t \<in> set (tails k L). fst t = []) \<or>
          ((\<forall>t \<in> set (tails k L). fst t \<noteq> []) \<and> build rt (tails k L) [] \<noteq> None)"
    proof (cases "k \<in> fst ` set es")
      case False
      then show ?thesis by (simp add: t_none)
    next
      case True
      then obtain x where kx: "(k, x) \<in> set es" by force
      show ?thesis
      proof (cases "is_subtree x")
        case True
        have "fst t \<noteq> []" if "t \<in> set (tails k L)" for t
          using that leaves_nonempty_path [of _ rt "own_entries x"]
          unfolding t_sub [OF kx True] decode_def by force
        then show ?thesis using sub_ok [OF kx True] by auto
      next
        case False
        then show ?thesis by (simp add: t_leaf [OF kx])
      qed
    qed
  qed
  then obtain d where d: "build rt L [] = Some d" and bd: "built rt L d"
    using build_grouped by blast
  have dd: "distinct (map fst d)" and keys: "fst ` set d = (hd \<circ> fst) ` set L"
    and leaf: "\<And>k' y'. ([k'], y') \<in> set L \<Longrightarrow> map_of d k' = Some y'"
    and node: "\<And>k' r' y'. (k' # r', y') \<in> set L \<Longrightarrow> r' \<noteq> [] \<Longrightarrow>
                 \<exists>sub. map_of d k' = Some (JObj sub) \<and> build rt (tails k' L) [] = Some sub"
    using bd unfolding built_def by (simp, simp, blast, blast)
  have val: "\<exists>v. map_of d k = Some v \<and> deep_eq v x" if kx: "(k, x) \<in> set es" for k x
  proof (cases "is_subtree x")
    case True
    then have "leaves rt (own_entries x) \<noteq> []"
      by (simp add: is_subtree_iff leaves_not_Nil)
    then obtain r y0 where ry: "(r, y0) \<in> set (leaves rt (own_entries x))"
      by (cases "leaves rt (own_entries x)") auto
    then have "r \<noteq> []" using leaves_nonempty_path by metis
    moreover have "(k # r, parseValue rt y0) \<in> set L"
      using kx True ry by (auto simp: inL)
    ultimately obtain sub where "map_of d k = Some (JObj sub)" "build rt (tails k L) [] = Some sub"
      using node by blast
    then show ?thesis using sub_ok [OF kx True] by auto
  next
    case False
    then have "([k], parseValue rt (stored rt x)) \<in> set L"
      using kx by (auto simp: inL)
    then have "map_of d k = Some (parseValue rt (stored rt x))" by (rule leaf)
    then show ?thesis using leaf_round_trip [of rt x] ent [OF kx] False by simp
  qed
  have k1: "fst ` set d = fst ` set es"
  proof -
    have "(hd \<circ> fst) ` set L = fst ` set es"
    proof (intro equalityI subsetI)
      fix k assume "k \<in> (hd \<circ> fst) ` set L"
      then obtain ks y where in': "(ks, y) \<in> set L" and hk: "hd ks = k" by force
      with noNil have "ks \<noteq> []" by auto
      with hk obtain r where "ks = k # r" by (cases ks) auto
      with in' inL show "k \<in> fst ` set es" by force
    next
      fix k assume "k \<in> fst ` set es"
      then obtain x where kx: "(k, x) \<in> set es" by force
      from val [OF kx] have "k \<in> fst ` set d"
        by (metis map_of_eq_None_iff option.distinct(1))
      then show "k \<in> (hd \<circ> fst) ` set L" using keys by simp
    qed
    then show ?thesis using keys by simp
  qed
  have k2: "case map_of es (fst e) of Some x \<Rightarrow> deep_eq (snd e) x | None \<Rightarrow> False"
    if "e \<in> set d" for e
  proof -
    obtain k v where e: "e = (k, v)" by (cases e)
    with that dd have dv: "map_of d k = Some v" by simp
    have "k \<in> fst ` set es" using that e k1 by force
    then obtain x where kx: "(k, x) \<in> set es" by force
    then have "map_of es k = Some x" using des by simp
    then show ?thesis using val [OF kx] dv by (simp add: e)
  qed
  from k1 k2 have "deep_eq (JObj d) (JObj es)" by (simp only: deep_eq_JObj) blast
  with d show ?case by blast
qed

subsection \<open>flatten writes the leaves\<close>

text \<open>A path is its keys joined by dots; splitting it gives the keys back.\<close>

fun join_dot :: "string list \<Rightarrow> string" where
  "join_dot [] = []"
| "join_dot [k] = k"
| "join_dot (k # ks) = k @ ''.'' @ join_dot ks"

lemma split_dot_nodot: "CHR ''.'' \<notin> set k \<Longrightarrow> split_dot k = [k]"
  by (induction k) auto

lemma split_dot_append: "CHR ''.'' \<notin> set k \<Longrightarrow> split_dot (k @ CHR ''.'' # s) = k # split_dot s"
  by (induction k) auto

lemma split_join:
  "ks \<noteq> [] \<Longrightarrow> \<forall>s \<in> set ks. CHR ''.'' \<notin> set s \<Longrightarrow> split_dot (join_dot ks) = ks"
  by (induction ks rule: join_dot.induct) (auto simp: split_dot_nodot split_dot_append)

lemma join_snoc: "ps \<noteq> [] \<Longrightarrow> join_dot (ps @ [k]) = join_dot ps @ ''.'' @ k"
  by (induction ps rule: join_dot.induct) auto

lemma join_nonempty: "ps \<noteq> [] \<Longrightarrow> \<forall>s \<in> set ps. s \<noteq> [] \<Longrightarrow> join_dot ps \<noteq> []"
  by (cases ps rule: join_dot.cases) auto

lemma join_not_proto:
  assumes "ks \<noteq> []" and "\<forall>s \<in> set ks. key_ok s"
  shows "join_dot ks \<noteq> ''__proto__''"
proof
  assume eq: "join_dot ks = ''__proto__''"
  have "split_dot (join_dot ks) = ks"
    using assms by (intro split_join) (auto simp: key_ok_def)
  then have "ks = [''__proto__'']" by (simp add: eq)
  with assms(2) show False by (simp add: key_ok_def)
qed

definition upd_all :: "(string \<times> jsval) list \<Rightarrow> (string \<rightharpoonup> jsval) \<Rightarrow> (string \<rightharpoonup> jsval)" where
  "upd_all ps m = fold (\<lambda>e m. m(fst e \<mapsto> snd e)) ps m"

lemma upd_all_append: "upd_all (A @ B) m = upd_all B (upd_all A m)"
  by (simp add: upd_all_def)

lemma upd_all_Cons: "upd_all ((p, x) # B) m = upd_all B (m(p \<mapsto> x))"
  by (simp add: upd_all_def)

lemma upd_all_Nil: "upd_all [] m = m"
  by (simp add: upd_all_def)

lemma flatten_keys_leaf_step:
  assumes "\<not> is_subtree x"
  shows "flatten_keys rt ((k, x) # es) prefix r =
         (case obj_set rt (if prefix \<noteq> [] then prefix @ ''.'' @ k else k) (stored rt x) r of
            Inl e \<Rightarrow> Inl e
          | Inr r1 \<Rightarrow> flatten_keys rt es prefix r1)"
  using assms by (cases x) (simp_all add: flatten.simps flatten_keys.simps stored_def Let_def)

lemma flatten_keys_subtree_step:
  assumes "is_subtree x"
  shows "flatten_keys rt ((k, x) # es) prefix r =
         (case flatten_keys rt (own_entries x) (if prefix \<noteq> [] then prefix @ ''.'' @ k else k) r of
            Inl e \<Rightarrow> Inl e
          | Inr r1 \<Rightarrow> flatten_keys rt es prefix r1)"
  using assms by (cases x) (simp_all add: flatten.simps flatten_keys.simps Let_def)

lemma map_paths_Cons:
  "map (\<lambda>(ks, x). (join_dot (ps @ ks), x)) (map (\<lambda>(ks, y). (k # ks, y)) T) =
   map (\<lambda>(ks, x). (join_dot ((ps @ [k]) @ ks), x)) T"
  by (induction T) auto

text \<open>
  On an object of the round trip no path is \<open>__proto__\<close>: \<open>flatten\<close> throws nothing,
  leaves the prototype of \<open>result\<close> as it is, and writes the leaves.
\<close>

lemma flatten_keys_map:
  assumes "round_trip_safe rt (JObj es)" and "\<forall>s \<in> set ps. key_ok s" and "prefix = join_dot ps"
  shows "\<exists>r'. flatten_keys rt es prefix (plain r) = Inr (plain r') \<and>
           map_of r' = upd_all (map (\<lambda>(ks, x). (join_dot (ps @ ks), x)) (leaves rt es)) (map_of r) \<and>
           (distinct (map fst r) \<longrightarrow> distinct (map fst r'))"
  using assms
proof (induction rt es arbitrary: ps prefix r rule: leaves.induct)
  case (1 rt)
  then show ?case by (auto simp: flatten_keys.simps upd_all_Nil)
next
  case (2 rt k x es)
  have k: "key_ok k" and x: "round_trip_safe rt x" and es: "round_trip_safe rt (JObj es)"
    using "2.prems"(1) by auto
  let ?np = "if prefix \<noteq> [] then prefix @ ''.'' @ k else k"
  let ?f = "\<lambda>(ks, x). (join_dot (ps @ ks), x)"
  have np: "?np = join_dot (ps @ [k])"
  proof (cases "ps = []")
    case True
    then show ?thesis using "2.prems"(3) by simp
  next
    case False
    then have "prefix \<noteq> []"
      using "2.prems"(2,3) join_nonempty [of ps] by (auto simp: key_ok_def)
    then show ?thesis using False "2.prems"(3) by (simp add: join_snoc)
  qed
  have segs: "\<forall>s \<in> set (ps @ [k]). key_ok s" using "2.prems"(2) k by simp
  have rest: "\<exists>r'. flatten_keys rt es prefix (plain r1) = Inr (plain r') \<and>
           map_of r' = upd_all (map ?f (leaves rt es)) (map_of r1) \<and>
           (distinct (map fst r1) \<longrightarrow> distinct (map fst r'))" for r1
    by (rule "2.IH"(2) [OF es "2.prems"(2,3)])
  show ?case
  proof (cases "is_subtree x")
    case True
    then have xo: "x = JObj (own_entries x)" by (simp add: is_subtree_iff)
    have "round_trip_safe rt (JObj (own_entries x))" using x xo by simp
    from "2.IH"(1) [OF True this segs np, of r]
    obtain r1 where i1: "flatten_keys rt (own_entries x) ?np (plain r) = Inr (plain r1)"
      and i2: "map_of r1 =
         upd_all (map ?f (map (\<lambda>(ks, y). (k # ks, y)) (leaves rt (own_entries x)))) (map_of r)"
      and i3: "distinct (map fst r) \<longrightarrow> distinct (map fst r1)"
      by (auto simp only: map_paths_Cons)
    from rest [of r1] obtain r2 where o1: "flatten_keys rt es prefix (plain r1) = Inr (plain r2)"
      and o2: "map_of r2 = upd_all (map ?f (leaves rt es)) (map_of r1)"
      and o3: "distinct (map fst r1) \<longrightarrow> distinct (map fst r2)"
      by blast
    have lv: "leaves rt ((k, x) # es) =
       map (\<lambda>(ks, y). (k # ks, y)) (leaves rt (own_entries x)) @ leaves rt es"
      using True by simp
    have "flatten_keys rt ((k, x) # es) prefix (plain r) = Inr (plain r2)"
      by (simp add: flatten_keys_subtree_step [OF True] i1 o1)
    moreover have "map_of r2 = upd_all (map ?f (leaves rt ((k, x) # es))) (map_of r)"
      by (simp only: o2 i2 lv map_append upd_all_append)
    moreover have "distinct (map fst r) \<longrightarrow> distinct (map fst r2)"
      using i3 o3 by blast
    ultimately show ?thesis by blast
  next
    case False
    have notp: "?np \<noteq> ''__proto__''"
      using join_not_proto [of "ps @ [k]"] segs by (simp only: np) simp
    let ?r1 = "own_set ?np (stored rt x) r"
    have i1: "obj_set rt ?np (stored rt x) (plain r) = Inr (plain ?r1)"
      using notp by (rule obj_set_plain)
    have i2: "map_of ?r1 = upd_all (map ?f [([k], stored rt x)]) (map_of r)"
      by (simp add: np map_of_own_set upd_all_def)
    from rest [of ?r1] obtain r2 where o1: "flatten_keys rt es prefix (plain ?r1) = Inr (plain r2)"
      and o2: "map_of r2 = upd_all (map ?f (leaves rt es)) (map_of ?r1)"
      and o3: "distinct (map fst ?r1) \<longrightarrow> distinct (map fst r2)"
      by blast
    have lv: "leaves rt ((k, x) # es) = [([k], stored rt x)] @ leaves rt es"
      using False by simp
    have "flatten_keys rt ((k, x) # es) prefix (plain r) = Inr (plain r2)"
      by (simp add: flatten_keys_leaf_step [OF False] i1 o1)
    moreover have "map_of r2 = upd_all (map ?f (leaves rt ((k, x) # es))) (map_of r)"
      by (simp only: o2 i2 lv map_append upd_all_append)
    moreover have "distinct (map fst r) \<longrightarrow> distinct (map fst r2)"
      using o3 distinct_own_set by blast
    ultimately show ?thesis by blast
  qed
qed

lemma upd_all_map_of: "upd_all ps m = m ++ map_of (rev ps)"
proof (induction ps arbitrary: m)
  case Nil
  then show ?case by (simp add: upd_all_Nil)
next
  case (Cons e ps)
  obtain p x where e: "e = (p, x)" by (cases e)
  have "upd_all (e # ps) m = upd_all ps (m(p \<mapsto> x))"
    by (simp add: e upd_all_Cons)
  also have "\<dots> = m(p \<mapsto> x) ++ map_of (rev ps)"
    by (rule Cons.IH)
  also have "\<dots> = m ++ map_of (rev (e # ps))"
    by (simp add: e fun_eq_iff map_add_def split: option.splits)
  finally show ?case .
qed

lemma upd_all_graph:
  assumes "distinct (map fst ps)"
  shows "upd_all ps Map.empty p = Some x \<longleftrightarrow> (p, x) \<in> set ps"
proof -
  have "distinct (map fst (rev ps))" using assms by (simp add: rev_map [symmetric])
  then have "map_of (rev ps) p = Some x \<longleftrightarrow> (p, x) \<in> set (rev ps)" by simp
  then show ?thesis by (simp add: upd_all_map_of)
qed

lemma leaves_segments:
  assumes "round_trip_safe rt (JObj es)" and "(ks, y) \<in> set (leaves rt es)"
  shows "ks \<noteq> [] \<and> (\<forall>s \<in> set ks. key_ok s)"
  using assms
proof (induction rt es arbitrary: ks y rule: leaves.induct)
  case (1 rt)
  then show ?case by simp
next
  case (2 rt k x es)
  have k: "key_ok k" and x: "round_trip_safe rt x" and es: "round_trip_safe rt (JObj es)"
    using "2.prems"(1) by auto
  show ?case
  proof (cases "(ks, y) \<in> set (leaves rt es)")
    case True
    then show ?thesis using "2.IH"(2) [OF es] by blast
  next
    case False
    show ?thesis
    proof (cases "is_subtree x")
      case True
      then have xo: "x = JObj (own_entries x)" by (simp add: is_subtree_iff)
      have rs: "round_trip_safe rt (JObj (own_entries x))" using x xo by simp
      from "2.prems"(2) False True obtain r where "ks = k # r"
        and "(r, y) \<in> set (leaves rt (own_entries x))" by auto
      then show ?thesis using "2.IH"(1) [OF True rs] k by auto
    next
      case st: False
      with "2.prems"(2) False have "ks = [k]" by auto
      then show ?thesis using k by simp
    qed
  qed
qed

lemma leaves_distinct:
  assumes "round_trip_safe rt (JObj es)"
  shows "distinct (map fst (leaves rt es))"
  using assms
proof (induction rt es rule: leaves.induct)
  case (1 rt)
  then show ?case by simp
next
  case (2 rt k x es)
  have x: "round_trip_safe rt x" and es: "round_trip_safe rt (JObj es)"
    and fresh: "k \<notin> fst ` set es"
    using "2.prems"(1) by auto
  let ?A = "if is_subtree x then map (\<lambda>(ks, y). (k # ks, y)) (leaves rt (own_entries x))
            else [([k], stored rt x)]"
  have dB: "distinct (map fst (leaves rt es))" by (rule "2.IH"(2) [OF es])
  have dA: "distinct (map fst ?A)"
  proof (cases "is_subtree x")
    case True
    then have xo: "x = JObj (own_entries x)" by (simp add: is_subtree_iff)
    have "round_trip_safe rt (JObj (own_entries x))" using x xo by simp
    then have "distinct (map fst (leaves rt (own_entries x)))" by (rule "2.IH"(1) [OF True])
    then have d1: "distinct (map ((#) k) (map fst (leaves rt (own_entries x))))"
      by (simp add: distinct_map inj_on_def)
    have eq: "map fst (map (\<lambda>(ks, y). (k # ks, y)) T) = map ((#) k) (map fst T)" for T :: "item list"
      by (induction T) auto
    from d1 show ?thesis by (simp only: True if_True eq)
  next
    case False
    then show ?thesis by simp
  qed
  have hdA: "\<exists>r. ks = k # r" if "ks \<in> fst ` set ?A" for ks
    using that by (cases "is_subtree x") auto
  have hdB: "ks \<notin> fst ` set (leaves rt es)" if "ks = k # r" for ks r
  proof
    assume "ks \<in> fst ` set (leaves rt es)"
    then obtain y where "(ks, y) \<in> set (leaves rt es)" by force
    then have "(k # r, y) \<in> set (leaves rt es)" using that by simp
    then obtain x' where "(k, x') \<in> set es" unfolding in_leaves by blast
    then have "k \<in> fst ` set es" by force
    with fresh show False by simp
  qed
  have "fst ` set ?A \<inter> fst ` set (leaves rt es) = {}"
    using hdA hdB by blast
  then have "distinct (map fst (?A @ leaves rt es))"
    using dA dB by simp
  then show ?case by simp
qed

text \<open>
  C1, as amended. For every plain object \<open>v\<close> whose keys, at every depth, are not
  empty, contain no dot and are not \<open>__proto__\<close>, and whose leaves are \<open>null\<close>, booleans,
  numbers, strings that \<open>parseValue\<close> returns unchanged, empty objects, and arrays whose
  JSON text is in brackets and parses back to a deep-equal array,
  \<open>unflatten(flatten(v))\<close> returns a value that deep-equals \<open>v\<close>.
\<close>

theorem unflatten_flatten_round_trip:
  assumes "is_plain_object v" and "round_trip_safe rt v"
  shows "\<exists>f r. flatten rt v [] (plain []) = Inr f \<and> unflatten rt f = Some r \<and> deep_eq r v"
proof -
  obtain es where v: "v = JObj es" using assms(1) by (cases v) auto
  have safe: "round_trip_safe rt (JObj es)" using assms(2) v by simp
  let ?paths = "map (\<lambda>(ks, x). (join_dot ks, x)) (leaves rt es)"
  obtain fl where flk: "flatten_keys rt es [] (plain []) = Inr (plain fl)"
    and mfl: "map_of fl = upd_all ?paths Map.empty"
    and dfl: "distinct (map fst fl)"
    using flatten_keys_map [OF safe, of "[]" "[]" "[]"] by auto
  let ?L = "map (\<lambda>(p, x). (split_dot p, parseValue rt x)) fl"
  have fl: "flatten rt v [] (plain []) = Inr (plain fl)"
    using flk by (cases es) (simp_all add: v flatten.simps flatten_keys.simps)
  have seg: "ks \<noteq> [] \<and> (\<forall>s \<in> set ks. key_ok s)" if "(ks, y) \<in> set (leaves rt es)" for ks y
    using leaves_segments [OF safe that] .
  have sj: "split_dot (join_dot ks) = ks" if "(ks, y) \<in> set (leaves rt es)" for ks y
    using seg [OF that] by (intro split_join) (auto simp: key_ok_def)
  have dpaths: "distinct (map fst ?paths)"
  proof -
    have e1: "map fst ?paths = map join_dot (map fst (leaves rt es))"
      by (induction "leaves rt es") auto
    have "inj_on join_dot (set (map fst (leaves rt es)))"
    proof (rule inj_onI)
      fix a b assume "a \<in> set (map fst (leaves rt es))" "b \<in> set (map fst (leaves rt es))"
        and eq: "join_dot a = join_dot b"
      then obtain ya yb where "(a, ya) \<in> set (leaves rt es)" "(b, yb) \<in> set (leaves rt es)"
        by force
      then have "split_dot (join_dot a) = a" "split_dot (join_dot b) = b"
        using sj by blast+
      with eq show "a = b" by metis
    qed
    with leaves_distinct [OF safe] have "distinct (map join_dot (map fst (leaves rt es)))"
      by (subst distinct_map) blast
    then show ?thesis by (simp only: e1)
  qed
  have mem: "(p, x) \<in> set fl \<longleftrightarrow> (p, x) \<in> set ?paths" for p x
    using dfl upd_all_graph [OF dpaths, of p x] mfl by (metis map_of_eq_Some_iff)
  then have setfl: "set fl = set ?paths" by auto
  have setL: "set ?L = decode rt ` set (leaves rt es)"
  proof -
    have "set ?L = (\<lambda>(p, x). (split_dot p, parseValue rt x)) ` set ?paths"
      by (simp only: set_map setfl)
    also have "\<dots> = (\<lambda>i. (split_dot (join_dot (fst i)), parseValue rt (snd i))) ` set (leaves rt es)"
      by (force simp: image_iff)
    also have "\<dots> = decode rt ` set (leaves rt es)"
      by (rule image_cong) (auto simp: decode_def sj)
    finally show ?thesis .
  qed
  have dL: "distinct (map fst ?L)"
  proof -
    have e2: "map fst ?L = map split_dot (map fst fl)"
      by (induction fl) auto
    have "inj_on split_dot (set (map fst fl))"
    proof (rule inj_onI)
      fix a b assume "a \<in> set (map fst fl)" "b \<in> set (map fst fl)"
        and eq: "split_dot a = split_dot b"
      then obtain xa xb where "(a, xa) \<in> set ?paths" "(b, xb) \<in> set ?paths"
        unfolding setfl [symmetric] by force
      then obtain ka kb ya yb where "a = join_dot ka" "(ka, ya) \<in> set (leaves rt es)"
        "b = join_dot kb" "(kb, yb) \<in> set (leaves rt es)" by auto
      with eq sj show "a = b" by metis
    qed
    with dfl have "distinct (map split_dot (map fst fl))"
      by (subst distinct_map) blast
    then show ?thesis by (simp only: e2)
  qed
  obtain d where d: "build rt ?L [] = Some d" and eq: "deep_eq (JObj d) (JObj es)"
    using build_leaves [OF safe dL setL] by blast
  have "unflatten rt (plain fl) = Some (JObj d)"
    by (simp add: unflatten_def plain_def unflatten_entries_build d)
  with fl eq v show ?thesis by blast
qed

text \<open>The example of the specification, with an array, a nested object and \<open>null\<close>.\<close>

theorem unflatten_flatten_round_trip_witness:
  "is_plain_object round_trip_example \<and> round_trip_safe example_runtime round_trip_example \<and>
   (\<exists>f r. flatten example_runtime round_trip_example [] (plain []) = Inr f \<and>
          unflatten example_runtime f = Some r \<and> deep_eq r round_trip_example)"
proof -
  have p: "is_plain_object round_trip_example"
    by (simp add: round_trip_example_def)
  have s: "round_trip_safe example_runtime round_trip_example"
    by (simp add: round_trip_example_def example_runtime_def key_ok_def startsWith_def
        endsWith_def)
  from unflatten_flatten_round_trip [OF p s] p s show ?thesis by blast
qed

text \<open>
  The claim as the specification states it fails at \<open>{a: ''}\<close>: \<open>flatten\<close> stores the
  empty string, which is also what it stores for \<open>null\<close>, and \<open>unflatten\<close> returns
  \<open>{a: null}\<close>.
\<close>

theorem empty_string_round_trip_counterexample:
  "flatten example_runtime (JObj [(''a'', JStr [])]) [] (plain []) =
     Inr (plain [(''a'', JStr [])]) \<and>
   unflatten example_runtime (plain [(''a'', JStr [])]) = Some (JObj [(''a'', JNull)]) \<and>
   \<not> deep_eq (JObj [(''a'', JNull)]) (JObj [(''a'', JStr [])])"
  by (simp add: unflatten_def flatten.simps flatten_keys.simps eval_defs)

section \<open>flatten at the top level\<close>

text \<open>
  C9. \<open>flatten\<close> of \<open>null\<close>, of \<open>undefined\<close>, of a boolean, a number or a string, of an
  array and of a \<open>Date\<close> is the empty mapping.
\<close>

theorem flatten_top_level_not_plain_object:
  "flatten rt JNull [] (plain []) = Inr (plain []) \<and>
   flatten rt JUndefined [] (plain []) = Inr (plain []) \<and>
   flatten rt (JBool b) [] (plain []) = Inr (plain []) \<and>
   flatten rt (JNum n) [] (plain []) = Inr (plain []) \<and>
   flatten rt (JStr s) [] (plain []) = Inr (plain []) \<and>
   flatten rt (JArr xs) [] (plain []) = Inr (plain []) \<and>
   flatten rt (JDate t) [] (plain []) = Inr (plain [])"
  by (simp add: flatten.simps)

section \<open>delete of a path that is not there\<close>

text \<open>
  C10, that \<open>delete(path)\<close> changes nothing when \<open>flatData\<close> does not hold the path. The
  test of \<open>delete\<close> is \<open>path in this.flatData\<close>, which is true of a name inherited from
  \<open>Object.prototype\<close>: on the session loaded from an empty table,
  \<open>delete('constructor')\<close> puts the path into \<open>deletedPaths\<close>.
\<close>

theorem delete_inherited_name_not_noop:
  "isValidPath (JStr ''constructor'') \<and>
   \<not> has_own (props (flatData loaded_session)) ''constructor'' \<and>
   delete example_runtime (JStr ''constructor'') loaded_session =
     (Inr (), loaded_session\<lparr>deletedPaths := [''constructor'']\<rparr>)"
  by (simp add: eval_defs)

text \<open>What the test does give: nothing changes when \<open>in\<close> does not find the path.\<close>

lemma delete_absent_is_noop:
  assumes "isValidPath path" and "\<not> no_object s" and "\<not> obj_in rt (the_string path) (flatData s)"
  shows "delete rt path s = (Inr (), s)"
  using assms by (simp add: delete_def)

end
